theory Spec2Isabelle
  imports Main "HOL-Library.Sublist"
begin

section \<open>URL parsing (vault.js, parseGitUrl)\<close>

text \<open>
  A JavaScript string is modelled as a \<^typ>\<open>string\<close>, one \<^typ>\<open>char\<close> per code unit.
  The regular expressions of \<open>parseGitUrl\<close> carry no flags, so \<open>.\<close> matches every
  code unit except a line terminator, and \<open>^\<close>, \<open>$\<close> anchor at the two ends of the
  whole input. Of the line terminators only line feed and carriage return fit a
  \<^typ>\<open>char\<close>.
\<close>

definition line_terminator :: "char \<Rightarrow> bool" where
  "line_terminator c = (c = CHR 0x0A \<or> c = CHR 0x0D)"

text \<open>\<open>after_prefix p s\<close>: the rest of \<open>s\<close> after the literal \<open>p\<close> at its start.\<close>

definition after_prefix :: "string \<Rightarrow> string \<Rightarrow> string option" where
  "after_prefix p s = (if take (length p) s = p then Some (drop (length p) s) else None)"

text \<open>
  The tail \<open>(.+?)(?:\.git)?$\<close> shared by both expressions. The lazy group tries the
  lengths 1, 2, ... in this order and keeps the first one after which the remaining
  input is empty or is exactly \<open>.git\<close>; the group itself holds no line terminator.
\<close>

definition lazy_path :: "string \<Rightarrow> string option" where
  "lazy_path rest =
     map_option (\<lambda>k. take k rest)
       (find (\<lambda>k. (\<forall>c \<in> set (take k rest). \<not> line_terminator c) \<and>
                   (drop k rest = [] \<or> drop k rest = ''.git''))
             [1 ..< Suc (length rest)])"

text \<open>
  \<open>/^git@([^:]+):(.+?)(?:\.git)?$/\<close>: the host group cannot hold a colon and is
  followed by one, so it is the text up to the first colon, and must not be empty.
  The result is the pair of the groups 1 and 2.
\<close>

definition sshMatch :: "string \<Rightarrow> (string \<times> string) option" where
  "sshMatch url =
     (case after_prefix ''git@'' url of
        None \<Rightarrow> None
      | Some u \<Rightarrow>
          (let host = takeWhile (\<lambda>c. c \<noteq> CHR '':'') u;
               r = dropWhile (\<lambda>c. c \<noteq> CHR '':'') u
           in if host = [] \<or> r = [] then None
              else map_option (Pair host) (lazy_path (tl r))))"

text \<open>\<open>/^https?:\/\/([^/]+)\/(.+?)(?:\.git)?$/\<close>, in the same way with the first slash.\<close>

definition httpsMatch :: "string \<Rightarrow> (string \<times> string) option" where
  "httpsMatch url =
     (case (case after_prefix ''https://'' url of
              Some u \<Rightarrow> Some u
            | None \<Rightarrow> after_prefix ''http://'' url) of
        None \<Rightarrow> None
      | Some u \<Rightarrow>
          (let host = takeWhile (\<lambda>c. c \<noteq> CHR ''/'') u;
               r = dropWhile (\<lambda>c. c \<noteq> CHR ''/'') u
           in if host = [] \<or> r = [] then None
              else map_option (Pair host) (lazy_path (tl r))))"

text \<open>\<open>String.prototype.split("/")\<close>: always at least one segment.\<close>

fun split_slash :: "string \<Rightarrow> string list" where
  "split_slash [] = [[]]"
| "split_slash (c # cs) =
     (if c = CHR ''/'' then [] # split_slash cs
      else (case split_slash cs of
              [] \<Rightarrow> [[c]]
            | s # ss \<Rightarrow> (c # s) # ss))"

text \<open>\<open>Array.prototype.join("/")\<close>.\<close>

fun join_slash :: "string list \<Rightarrow> string" where
  "join_slash [] = []"
| "join_slash [s] = s"
| "join_slash (s # t # ss) = s @ CHR ''/'' # join_slash (t # ss)"

record parsed =
  org :: string
  projectPath :: string

datatype fatal = MalformedIdentifier | ConfigurationMissing | CloneFailed | LinkFailed

text \<open>
  \<open>parseGitUrl\<close>: the SSH match wins, then the HTTPS match; with neither the process
  exits with status 1, here the value \<open>Inl MalformedIdentifier\<close>.
\<close>

definition parseGitUrl :: "string \<Rightarrow> fatal + parsed" where
  "parseGitUrl url =
     (case (case sshMatch url of
              Some m \<Rightarrow> Some (snd m)
            | None \<Rightarrow> (case httpsMatch url of
                         Some m \<Rightarrow> Some (snd m)
                       | None \<Rightarrow> None)) of
        None \<Rightarrow> Inl MalformedIdentifier
      | Some repoPath \<Rightarrow>
          (let segments = split_slash repoPath
           in Inr \<lparr> org = hd segments, projectPath = join_slash (tl segments) \<rparr>))"

section \<open>The file system\<close>

text \<open>
  A path is the list of the segments of an absolute path; the root is \<open>[]\<close>. An empty
  segment is what a doubled or a trailing slash leaves: \<open>/vault/p/\<close> is
  \<open>[''vault'', ''p'', []]\<close>. The file system is a table from the physical location of an
  entry (a path without empty segments) to the entry, read with \<^const>\<open>map_of\<close> (the
  first binding of a key counts). A directory carries its read, write and search
  permissions; a symbolic link (or junction) carries its absolute target.
\<close>

type_synonym path = "string list"

datatype node =
    File
  | is_Dir: Dir (readable: bool) (writable: bool) (searchable: bool)
  | Symlink path

type_synonym fs = "(path \<times> node) list"

datatype errno = ENOENT | ENOTDIR | EACCES | EEXIST

text \<open>
  Path resolution as the operating system does it for \<open>stat\<close>: \<open>c\<close> is the physical
  location reached so far, \<open>rest\<close> the segments still to walk. A link is followed
  wherever it is met, also as the last segment; passing through a directory needs its
  search permission. An empty segment stays where it is and asks for a directory there,
  so a path with a trailing slash resolves only to a directory. A cycle of links never
  returns, which is the value \<open>None\<close> like every other failure.
\<close>

partial_function (option) resolve :: "fs \<Rightarrow> path \<Rightarrow> path \<Rightarrow> (path \<times> node) option" where
  "resolve fs c rest =
     (case map_of fs c of
        None \<Rightarrow> None
      | Some File \<Rightarrow> (if rest = [] then Some (c, File) else None)
      | Some (Dir r w x) \<Rightarrow>
          (case rest of
             [] \<Rightarrow> Some (c, Dir r w x)
           | s # ss \<Rightarrow>
               if s = [] then resolve fs c ss
               else if x then resolve fs (c @ [s]) ss
               else None)
      | Some (Symlink t) \<Rightarrow> resolve fs [] (t @ rest))"

declare resolve.simps [code]

definition stat :: "fs \<Rightarrow> path \<Rightarrow> (path \<times> node) option" where
  "stat fs p = resolve fs [] p"

text \<open>
  \<open>fs.existsSync\<close>: true when the path resolves, links followed as for \<open>stat\<close>; every
  error is swallowed into \<open>false\<close>.
\<close>

definition existsSync :: "fs \<Rightarrow> path \<Rightarrow> bool" where
  "existsSync fs p = (stat fs p \<noteq> None)"

text \<open>
  The entries of the directory at the physical location \<open>c\<close>, each name once; the name
  of an entry is not empty.
\<close>

definition children :: "fs \<Rightarrow> path \<Rightarrow> (string \<times> node) list" where
  "children fs c =
     List.map_filter (\<lambda>name. map_option (Pair name) (map_of fs (c @ [name])))
       (remdups (map (\<lambda>(p, n). last p) (filter (\<lambda>(p, n). p \<noteq> [] \<and> butlast p = c \<and> last p \<noteq> []) fs)))"

text \<open>
  \<open>fs.readdirSync(d, { withFileTypes: true })\<close>: the entries with their own type (a
  link is reported as a link, not as what it points to); it throws when \<open>d\<close> does not
  resolve to a directory or the directory may not be read.
\<close>

definition readdirSync :: "fs \<Rightarrow> path \<Rightarrow> errno + (string \<times> node) list" where
  "readdirSync fs d =
     (case stat fs d of
        None \<Rightarrow> Inl ENOENT
      | Some (c, Dir r w x) \<Rightarrow> if r then Inr (children fs c) else Inl EACCES
      | Some (c, _) \<Rightarrow> Inl ENOTDIR)"

text \<open>A path without the empty segments at its end.\<close>

definition strip_slashes :: "path \<Rightarrow> path" where
  "strip_slashes p = rev (dropWhile (\<lambda>s. s = []) (rev p))"

text \<open>
  Creating one entry at \<open>p\<close>, as \<open>mkdir\<close> and \<open>symlink\<close> do: the parent must resolve
  to a searchable and writable directory that has no entry of that name yet. Behind a
  trailing slash only a directory can be created; for anything else the system answers
  \<open>ENOENT\<close>.
\<close>

definition create_entry :: "fs \<Rightarrow> path \<Rightarrow> node \<Rightarrow> errno + fs" where
  "create_entry fs p n =
     (let q = strip_slashes p
      in if q = [] then Inl EEXIST
         else (case stat fs (butlast q) of
                 None \<Rightarrow> Inl ENOENT
               | Some (c, Dir r w x) \<Rightarrow>
                   if \<not> x then Inl EACCES
                   else if map_of fs (c @ [last q]) \<noteq> None then Inl EEXIST
                   else if q \<noteq> p \<and> \<not> is_Dir n then Inl ENOENT
                   else if \<not> w then Inl EACCES
                   else Inr ((c @ [last q], n) # fs)
               | Some (c, _) \<Rightarrow> Inl ENOTDIR))"

definition mkdir :: "fs \<Rightarrow> path \<Rightarrow> errno + fs" where
  "mkdir fs p = create_entry fs p (Dir True True True)"

text \<open>\<open>fs.symlinkSync(target, path, "dir")\<close>.\<close>

definition symlinkSync :: "fs \<Rightarrow> path \<Rightarrow> path \<Rightarrow> errno + fs" where
  "symlinkSync fs target p = create_entry fs p (Symlink target)"

text \<open>
  \<open>mklink /J "link" "target"\<close> run through \<open>execSync\<close>: a junction is a link to an
  absolute directory path, and a non-zero exit of the command is the exception that
  \<open>execSync\<close> throws.
\<close>

definition mklink_junction :: "fs \<Rightarrow> path \<Rightarrow> path \<Rightarrow> errno + fs" where
  "mklink_junction fs p target = create_entry fs p (Symlink target)"

text \<open>
  \<open>fs.mkdirSync(p, { recursive: true })\<close>: every missing ancestor is created, from the
  root down; an existing directory is left alone, anything else in the way is an error:
  \<open>ENOTDIR\<close> or \<open>EEXIST\<close> for what resolves to something other than a directory,
  and the error of \<open>stat\<close> for an entry that is there but does not resolve (a dangling
  link).
\<close>

fun mkdirp :: "fs \<Rightarrow> path \<Rightarrow> string list \<Rightarrow> errno + fs" where
  "mkdirp fs c [] = Inr fs"
| "mkdirp fs c (s # ss) =
     (case stat fs (c @ [s]) of
        Some (_, Dir r w x) \<Rightarrow> mkdirp fs (c @ [s]) ss
      | Some (_, _) \<Rightarrow> Inl (if ss = [] then EEXIST else ENOTDIR)
      | None \<Rightarrow> (case mkdir fs (c @ [s]) of
                   Inl e \<Rightarrow> Inl (if e = EEXIST then ENOENT else e)
                 | Inr fs' \<Rightarrow> mkdirp fs' (c @ [s]) ss))"

definition mkdirSync_recursive :: "fs \<Rightarrow> path \<Rightarrow> errno + fs" where
  "mkdirSync_recursive fs p = mkdirp fs [] p"

text \<open>\<open>path.dirname\<close>: trailing slashes do not count; the root is its own parent.\<close>

definition dirname :: "path \<Rightarrow> path" where
  "dirname p = butlast (strip_slashes p)"

text \<open>
  \<open>path.join(base, s)\<close> on an absolute base without a trailing slash: empty and \<open>.\<close>
  segments vanish, \<open>..\<close> steps up and stays at the root, and a slash at the end of
  \<open>s\<close> is kept unless the result is the root. Paths are POSIX paths, with the slash as
  the only separator.
\<close>

fun normalize_segs :: "path \<Rightarrow> string list \<Rightarrow> path" where
  "normalize_segs acc [] = acc"
| "normalize_segs acc (s # ss) =
     (if s = [] \<or> s = ''.'' then normalize_segs acc ss
      else if s = ''..'' then normalize_segs (butlast acc) ss
      else normalize_segs (acc @ [s]) ss)"

definition path_join :: "path \<Rightarrow> string \<Rightarrow> path" where
  "path_join base s =
     (let segs = normalize_segs base (split_slash s)
      in if s \<noteq> [] \<and> last s = CHR ''/'' \<and> segs \<noteq> [] then segs @ [[]] else segs)"

text \<open>\<open>path.relative(from, to)\<close>, as the string of its segments joined by a slash.\<close>

definition path_relative :: "path \<Rightarrow> path \<Rightarrow> string" where
  "path_relative from to =
     (let k = length (longest_common_prefix from to)
      in join_slash (replicate (length from - k) ''..'' @ drop k to))"

section \<open>Link reconciliation (vault.js, ensureLink)\<close>

datatype outcome = Exists | Created | Failed

text \<open>
  \<open>ensureLink\<close> returns one of the three strings and the file system it leaves, or it
  throws: \<open>mkdirSync\<close> stands before the \<open>try\<close> block, so its exception leaves the
  function (\<open>Inl\<close>); an exception of the link creation is caught and becomes
  \<open>Failed\<close>. The first argument says whether the platform is \<open>win32\<close>.
\<close>

definition ensureLink :: "bool \<Rightarrow> fs \<Rightarrow> path \<Rightarrow> path \<Rightarrow> errno + (outcome \<times> fs)" where
  "ensureLink win32 fs linkPath targetPath =
     (if existsSync fs linkPath then Inr (Exists, fs)
      else (case mkdirSync_recursive fs (dirname linkPath) of
              Inl e \<Rightarrow> Inl e
            | Inr fs1 \<Rightarrow>
                (case (if win32 then mklink_junction fs1 linkPath targetPath
                       else symlinkSync fs1 targetPath linkPath) of
                   Inr fs2 \<Rightarrow> Inr (Created, fs2)
                 | Inl e \<Rightarrow> Inr (Failed, fs1))))"

section \<open>Repository discovery (vault.js, findGitRepos)\<close>

text \<open>\<open>entry.name.startsWith(".")\<close>.\<close>

definition hidden :: "string \<Rightarrow> bool" where
  "hidden name = (take 1 name = ''.'')"

text \<open>
  The number of entries strictly beneath a physical location; it bounds the recursion of
  the walk.
\<close>

definition below :: "fs \<Rightarrow> path \<Rightarrow> nat" where
  "below fs c = length (filter (\<lambda>(p, n). strict_prefix c p) fs)"

lemma resolve_append:
  assumes "resolve fs c p = Some y"
  shows "map_of fs (fst y) = Some (snd y) \<and> (\<forall>t. snd y \<noteq> Symlink t) \<and>
     (\<forall>q. resolve fs c (p @ q) = resolve fs (fst y) q)"
proof -
  let ?P = "\<lambda>fs c p y. map_of fs (fst y) = Some (snd y) \<and> (\<forall>t. snd y \<noteq> Symlink t) \<and>
     (\<forall>q. resolve fs c (p @ q) = resolve fs (fst y) q)"
  have "?P fs c p y"
  proof (rule resolve.raw_induct[where P = ?P, OF _ assms])
    fix resolve' fs c rest y
    assume IH: "\<And>fs c rest y. resolve' fs c rest = Some y \<Longrightarrow> ?P fs c rest y"
      and body: "(case map_of fs c of
        None \<Rightarrow> None
      | Some File \<Rightarrow> (if rest = [] then Some (c, File) else None)
      | Some (Dir r w x) \<Rightarrow>
          (case rest of
             [] \<Rightarrow> Some (c, Dir r w x)
           | s # ss \<Rightarrow>
               if s = [] then resolve' fs c ss
               else if x then resolve' fs (c @ [s]) ss
               else None)
      | Some (Symlink t) \<Rightarrow> resolve' fs [] (t @ rest)) = Some y"
    show "?P fs c rest y"
    proof (cases "map_of fs c")
      case None
      with body show ?thesis by simp
    next
      case (Some n)
      show ?thesis
      proof (cases n)
        case File
        with Some body show ?thesis by (auto split: if_splits)
      next
        case (Dir r w x)
        show ?thesis
        proof (cases rest)
          case Nil
          with Some Dir body show ?thesis by auto
        next
          case (Cons s ss)
          show ?thesis
          proof (cases "s = []")
            case True
            with Some Dir Cons body have r: "resolve' fs c ss = Some y" by simp
            from IH[OF r] have ih: "map_of fs (fst y) = Some (snd y)" "\<forall>t. snd y \<noteq> Symlink t"
              "\<And>q. resolve fs c (ss @ q) = resolve fs (fst y) q" by auto
            have "resolve fs c (rest @ q) = resolve fs (fst y) q" for q
              by (subst resolve.simps) (simp add: Some Dir Cons True ih(3))
            with ih show ?thesis by simp
          next
            case False
            with Some Dir Cons body have x: "x" and r: "resolve' fs (c @ [s]) ss = Some y"
              by (auto split: if_splits)
            from IH[OF r] have ih: "map_of fs (fst y) = Some (snd y)" "\<forall>t. snd y \<noteq> Symlink t"
              "\<And>q. resolve fs (c @ [s]) (ss @ q) = resolve fs (fst y) q" by auto
            have "resolve fs c (rest @ q) = resolve fs (fst y) q" for q
              by (subst resolve.simps) (simp add: Some Dir Cons False x ih(3))
            with ih show ?thesis by simp
          qed
        qed
      next
        case (Symlink t)
        with Some body have r: "resolve' fs [] (t @ rest) = Some y" by simp
        from IH[OF r] have ih: "map_of fs (fst y) = Some (snd y)" "\<forall>t. snd y \<noteq> Symlink t"
          "\<And>q. resolve fs [] ((t @ rest) @ q) = resolve fs (fst y) q" by auto
        have "resolve fs c (rest @ q) = resolve fs (fst y) q" for q
          using ih(3)[of q] by (subst resolve.simps) (simp add: Some Symlink)
        with ih show ?thesis by simp
      qed
    qed
  qed
  then show ?thesis .
qed

lemma resolve_mono:
  assumes "resolve fs c p = Some y" and le: "map_of fs \<subseteq>\<^sub>m map_of fs'"
  shows "resolve fs' c p = Some y"
proof -
  let ?P = "\<lambda>fs0 c p y. fs0 = fs \<longrightarrow> resolve fs' c p = Some y"
  have "?P fs c p y"
  proof (rule resolve.raw_induct[where P = ?P, OF _ assms(1)])
    fix resolve' fs0 c rest y
    assume IH: "\<And>fs c rest y. resolve' fs c rest = Some y \<Longrightarrow> ?P fs c rest y"
      and body: "(case map_of fs0 c of
        None \<Rightarrow> None
      | Some File \<Rightarrow> (if rest = [] then Some (c, File) else None)
      | Some (Dir r w x) \<Rightarrow>
          (case rest of
             [] \<Rightarrow> Some (c, Dir r w x)
           | s # ss \<Rightarrow>
               if s = [] then resolve' fs0 c ss
               else if x then resolve' fs0 (c @ [s]) ss
               else None)
      | Some (Symlink t) \<Rightarrow> resolve' fs0 [] (t @ rest)) = Some y"
    show "?P fs0 c rest y"
    proof
      assume e: "fs0 = fs"
      from body obtain n where n: "map_of fs c = Some n" unfolding e by (auto split: option.splits)
      with le have n': "map_of fs' c = Some n" by (metis domI map_le_def)
      show "resolve fs' c rest = Some y"
      proof (cases n)
        case File
        with n n' body e show ?thesis by (subst resolve.simps) (auto split: if_splits)
      next
        case (Dir r w x)
        show ?thesis
        proof (cases rest)
          case Nil
          with n n' Dir body e show ?thesis by (subst resolve.simps) auto
        next
          case (Cons s ss)
          show ?thesis
          proof (cases "s = []")
            case True
            with n Dir Cons body e have r: "resolve' fs c ss = Some y" by simp
            from IH[OF r] show ?thesis
              by (subst resolve.simps) (simp add: n' Dir Cons True)
          next
            case False
            with n Dir Cons body e have x: "x" and r: "resolve' fs (c @ [s]) ss = Some y"
              by (auto split: if_splits)
            from IH[OF r] show ?thesis
              by (subst resolve.simps) (simp add: n' Dir Cons False x)
          qed
        qed
      next
        case (Symlink t)
        with n body e have r: "resolve' fs [] (t @ rest) = Some y" by simp
        from IH[OF r] show ?thesis
          by (subst resolve.simps) (simp add: n' Symlink)
      qed
    qed
  qed
  then show ?thesis by simp
qed

lemma children_in:
  "(name, n) \<in> set (children fs c) \<Longrightarrow> map_of fs (c @ [name]) = Some n \<and> name \<noteq> []"
  by (auto simp: children_def List.map_filter_def)

lemma length_filter_less:
  "x \<in> set xs \<Longrightarrow> Q x \<Longrightarrow> \<not> P x \<Longrightarrow> (\<And>y. P y \<Longrightarrow> Q y) \<Longrightarrow>
     length (filter P xs) < length (filter Q xs)"
proof (induction xs)
  case Nil
  then show ?case by simp
next
  case (Cons a xs)
  have le: "length (filter P xs) \<le> length (filter Q xs)"
    using Cons.prems(4)
    by (induction xs) auto
  show ?case
  proof (cases "x = a")
    case True
    with Cons.prems le show ?thesis by (simp add: less_Suc_eq_le)
  next
    case False
    with Cons.prems have "x \<in> set xs" by simp
    from Cons.IH[OF this Cons.prems(2,3,4)] Cons.prems(4)[of a] show ?thesis by auto
  qed
qed

lemma below_child:
  assumes "map_of fs (c @ [name]) = Some n"
  shows "below fs (c @ [name]) < below fs c"
  unfolding below_def
proof (rule length_filter_less[of "(c @ [name], n)"])
  show "(c @ [name], n) \<in> set fs" using assms by (rule map_of_SomeD)
  show "case (c @ [name], n) of (p, n) \<Rightarrow> strict_prefix c p" by (simp add: strict_prefix_def)
  show "\<not> (case (c @ [name], n) of (p, n) \<Rightarrow> strict_prefix (c @ [name]) p)" by simp
  show "\<And>y. (case y of (p, n) \<Rightarrow> strict_prefix (c @ [name]) p) \<Longrightarrow>
          (case y of (p, n) \<Rightarrow> strict_prefix c p)"
    by (auto simp: strict_prefix_def prefix_def)
qed

lemma stat_child:
  assumes "stat fs d = Some (c, Dir r w x)" "name \<noteq> []"
  shows "stat fs (d @ [name]) = (if x then resolve fs (c @ [name]) [] else None)"
proof -
  from resolve_append[OF assms(1)[unfolded stat_def]]
  have m: "map_of fs c = Some (Dir r w x)"
    and a: "resolve fs [] (d @ [name]) = resolve fs c [name]" by auto
  show ?thesis unfolding stat_def a by (subst resolve.simps) (simp add: m assms(2))
qed

lemma resolve_at_node:
  "map_of fs c = Some n \<Longrightarrow> \<forall>t. n \<noteq> Symlink t \<Longrightarrow> resolve fs c [] = Some (c, n)"
  by (subst resolve.simps) (cases n; simp)

text \<open>
  The inner function \<open>walk\<close>; the array \<open>repos\<close> it pushes to is the list it returns.
  \<open>readdirSync\<close> stands in a \<open>try\<close> block whose handler returns.
\<close>

function walk :: "fs \<Rightarrow> path \<Rightarrow> path list" where
  "walk fs d =
     (if existsSync fs (d @ [''.git'']) then [d]
      else (case readdirSync fs d of
              Inl e \<Rightarrow> []
            | Inr entries \<Rightarrow>
                concat (map (\<lambda>(name, n).
                         if is_Dir n \<and> \<not> hidden name \<and> name \<noteq> ''node_modules''
                         then walk fs (d @ [name]) else [])
                       entries)))"
  by pat_completeness auto
termination
proof (relation "measure (\<lambda>(fs, d). case stat fs d of None \<Rightarrow> 0 | Some (c, n) \<Rightarrow> Suc (below fs c))")
  show "wf (measure (\<lambda>(fs, d). case stat fs d of None \<Rightarrow> 0 | Some (c, n) \<Rightarrow> Suc (below fs c)))"
    by simp
next
  fix fs :: fs and d :: path and entries :: "(string \<times> node) list" and e name n
  assume rd: "readdirSync fs d = Inr entries" and e: "e \<in> set entries" "(name, n) = e"
    and ok: "is_Dir n \<and> \<not> hidden name \<and> name \<noteq> ''node_modules''"
  from rd obtain c r w x where st: "stat fs d = Some (c, Dir r w x)" and en: "entries = children fs c"
    by (auto simp: readdirSync_def split: option.splits node.splits if_splits)
  from e en have m: "map_of fs (c @ [name]) = Some n" and nn: "name \<noteq> []"
    using children_in[of name n fs c] by auto
  from ok have ns: "\<forall>t. n \<noteq> Symlink t" by auto
  have "stat fs (d @ [name]) = (if x then Some (c @ [name], n) else None)"
    unfolding stat_child[OF st nn] resolve_at_node[OF m ns] ..
  with st below_child[OF m]
  show "((fs, d @ [name]), (fs, d)) \<in>
          measure (\<lambda>(fs, d). case stat fs d of None \<Rightarrow> 0 | Some (c, n) \<Rightarrow> Suc (below fs c))"
    by simp
qed

declare walk.simps [simp del]

definition findGitRepos :: "fs \<Rightarrow> path \<Rightarrow> path list" where
  "findGitRepos fs dir = (if \<not> existsSync fs dir then [] else walk fs dir)"

section \<open>The commands (vault.js, cmdPull and cmdAdd)\<close>

text \<open>
  The version-control tool is outside the program: \<open>gitExec\<close> runs it and returns
  whether it succeeded. Here it is a parameter \<open>git\<close> that maps a command and the file
  system to the success flag and the file system afterwards. The command line that
  \<open>gitExec\<close> hands to the shell is read as the tool run with the two arguments as they
  are.
\<close>

datatype git_cmd = GitPull path | GitClone string path

type_synonym git_tool = "git_cmd \<Rightarrow> fs \<Rightarrow> bool \<times> fs"

text \<open>
  What the commands write to the console, one constructor per message of the source,
  with the values the message shows. \<open>Git\<close> marks a run of the tool, whose own output
  is passed through.
\<close>

datatype event =
    Git git_cmd
  | Log_pulling_vault
  | Log_blank
  | Log_no_repos "path list"
  | Write_item string
  | Warn_pull_failed
  | Log_link_created
  | Log_summary nat nat
  | Log_add_info string string path string
  | Log_repo_exists
  | Log_cloning
  | Error_clone_failed
  | Log_link_exists
  | Error_link_failed path path
  | Log_done path

text \<open>
  A command ends normally, or the process ends early: \<open>process.exit(1)\<close> after a fatal
  condition, or an exception nobody catches.
\<close>

datatype abort = Exit fatal | Uncaught errno | TypeError

type_synonym world = "fs \<times> event list"

text \<open>
  The loop of \<open>cmdPull\<close> over the pairs of a repository and its source root, with the
  counter \<open>created\<close>.
\<close>

fun pull_loop ::
  "git_tool \<Rightarrow> bool \<Rightarrow> path \<Rightarrow> (path \<times> path) list \<Rightarrow> nat \<Rightarrow> world \<Rightarrow> abort \<times> world + nat \<times> world"
where
  "pull_loop git win32 vault [] created w = Inr (created, w)"
| "pull_loop git win32 vault ((repoPath, srcDir) # rest) created (fs, out) =
     (let relative = path_relative srcDir repoPath;
          linkPath = path_join vault relative;
          out1 = out @ [Write_item relative, Git (GitPull repoPath)];
          (ok, fs1) = git (GitPull repoPath) fs;
          out2 = (if \<not> ok then out1 @ [Warn_pull_failed] else out1)
      in (case ensureLink win32 fs1 linkPath repoPath of
            Inl e \<Rightarrow> Inl (Uncaught e, (fs1, out2))
          | Inr (status, fs2) \<Rightarrow>
              if status = Created
              then pull_loop git win32 vault rest (Suc created) (fs2, out2 @ [Log_link_created])
              else pull_loop git win32 vault rest created (fs2, out2)))"

text \<open>
  \<open>cmdPull\<close>, after the configuration is loaded: \<open>vault\<close> is \<open>VAULT_ROOT\<close> and
  \<open>srcDirs\<close> the resolved source roots.
\<close>

definition cmdPull :: "git_tool \<Rightarrow> bool \<Rightarrow> path \<Rightarrow> path list \<Rightarrow> fs \<Rightarrow> abort \<times> world + world" where
  "cmdPull git win32 vault srcDirs fs =
     (let (ok, fs1) = git (GitPull vault) fs;
          out1 = [Log_pulling_vault, Git (GitPull vault), Log_blank];
          allRepos = concat (map (\<lambda>srcDir. map (\<lambda>repoPath. (repoPath, srcDir))
                                                 (findGitRepos fs1 srcDir)) srcDirs)
      in if allRepos = [] then Inr (fs1, out1 @ [Log_no_repos srcDirs])
         else (case pull_loop git win32 vault allRepos 0 (fs1, out1) of
                 Inl a \<Rightarrow> Inl a
               | Inr (created, (fs2, out2)) \<Rightarrow>
                   Inr (fs2, out2 @ [Log_blank, Log_summary (length allRepos) created])))"

text \<open>
  \<open>linkOverride || parsed.projectPath\<close>: the override is \<open>null\<close> (\<open>None\<close>) without
  \<open>--link\<close>; \<open>||\<close> takes its right side for \<open>null\<close> and for the empty string.
\<close>

definition or_else :: "string option \<Rightarrow> string \<Rightarrow> string" where
  "or_else linkOverride d =
     (case linkOverride of
        None \<Rightarrow> d
      | Some l \<Rightarrow> if l = [] then d else l)"

text \<open>
  \<open>cmdAdd\<close>, after the configuration is loaded. \<open>getSrcDirs\<close> returns at least one
  root; \<open>srcDirs[0]\<close> of no roots would be \<open>undefined\<close> and \<open>path.join\<close> would throw.
\<close>

definition cmdAdd ::
  "git_tool \<Rightarrow> bool \<Rightarrow> path \<Rightarrow> path list \<Rightarrow> string \<Rightarrow> string option \<Rightarrow> fs \<Rightarrow> abort \<times> world + world"
where
  "cmdAdd git win32 vault srcDirs url linkOverride fs =
     (case parseGitUrl url of
        Inl f \<Rightarrow> Inl (Exit f, (fs, []))
      | Inr parsed \<Rightarrow>
          (case srcDirs of
             [] \<Rightarrow> Inl (TypeError, (fs, []))
           | cloneBase # _ \<Rightarrow>
               (let clonePath = path_join cloneBase (projectPath parsed);
                    vaultLink = or_else linkOverride (projectPath parsed);
                    out1 = [Log_blank, Log_add_info url (projectPath parsed) clonePath vaultLink,
                            Log_blank];
                    cloned =
                      (if existsSync fs clonePath
                       then (let (ok, fs1) = git (GitPull clonePath) fs
                             in Inr (fs1, out1 @ [Log_repo_exists, Git (GitPull clonePath)]))
                       else (case mkdirSync_recursive fs (dirname clonePath) of
                               Inl e \<Rightarrow> Inl (Uncaught e, (fs, out1 @ [Log_cloning]))
                             | Inr fs0 \<Rightarrow>
                                 (let (ok, fs1) = git (GitClone url clonePath) fs0;
                                      out2 = out1 @ [Log_cloning, Git (GitClone url clonePath)]
                                  in if \<not> ok
                                     then Inl (Exit CloneFailed, (fs1, out2 @ [Error_clone_failed]))
                                     else Inr (fs1, out2))))
                in (case cloned of
                      Inl a \<Rightarrow> Inl a
                    | Inr (fs1, out3) \<Rightarrow>
                        (let linkAbsolute = path_join vault vaultLink
                         in (case ensureLink win32 fs1 linkAbsolute clonePath of
                               Inl e \<Rightarrow> Inl (Uncaught e, (fs1, out3))
                             | Inr (status, fs2) \<Rightarrow>
                                 if status = Created
                                 then Inr (fs2, out3 @ [Log_link_created, Log_blank,
                                                        Log_done linkAbsolute])
                                 else if status = Exists
                                 then Inr (fs2, out3 @ [Log_link_exists, Log_blank,
                                                        Log_done linkAbsolute])
                                 else Inl (Exit LinkFailed,
                                           (fs2, out3 @ [Error_link_failed linkAbsolute
                                                           clonePath]))))))))"

section \<open>Vocabulary of the properties\<close>

text \<open>What the tail of both expressions keeps of the text after the host.\<close>

definition strip_git :: "string \<Rightarrow> string" where
  "strip_git rest = (if 4 < length rest \<and> suffix ''.git'' rest then take (length rest - 4) rest else rest)"

text \<open>The two scheme prefixes that \<open>https?://\<close> accepts.\<close>

definition scheme :: "bool \<Rightarrow> string" where
  "scheme tls = (if tls then ''https://'' else ''http://'')"

text \<open>The optional suffix of an identifier.\<close>

definition git_suffix :: "bool \<Rightarrow> string" where
  "git_suffix b = (if b then ''.git'' else [])"

text \<open>
  \<open>visits fs root d\<close>: the call \<open>walk(root)\<close> reaches the call \<open>walk(d)\<close>. A directory
  without a visible marker whose listing succeeds hands every entry that is a directory,
  not hidden and not \<open>node_modules\<close> to a recursive call.
\<close>

inductive visits :: "fs \<Rightarrow> path \<Rightarrow> path \<Rightarrow> bool" for fs root where
  start: "visits fs root root"
| step: "visits fs root d \<Longrightarrow> \<not> existsSync fs (d @ [''.git'']) \<Longrightarrow>
         readdirSync fs d = Inr entries \<Longrightarrow> (name, n) \<in> set entries \<Longrightarrow>
         is_Dir n \<Longrightarrow> \<not> hidden name \<Longrightarrow> name \<noteq> ''node_modules'' \<Longrightarrow>
         visits fs root (d @ [name])"

text \<open>The test of the loop body on one entry.\<close>

definition eligible :: "string \<times> node \<Rightarrow> bool" where
  "eligible e = (is_Dir (snd e) \<and> \<not> hidden (fst e) \<and> fst e \<noteq> ''node_modules'')"

text \<open>No path twice, and none a prefix of another.\<close>

definition antichain :: "path list \<Rightarrow> bool" where
  "antichain ps = (distinct ps \<and> (\<forall>p \<in> set ps. \<forall>q \<in> set ps. prefix p q \<longrightarrow> p = q))"

text \<open>
  The tree of the end-to-end scenario A: \<open>repoA/.git\<close>, \<open>group/repoB/.git\<close> (here a
  plain file, as a worktree has it) and \<open>node_modules/hidden/.git\<close> under \<open>/src\<close>.
\<close>

definition scenario_A :: fs where
  "scenario_A =
     [([], Dir True True True),
      ([''src''], Dir True True True),
      ([''src'', ''repoA''], Dir True True True),
      ([''src'', ''repoA'', ''.git''], Dir True True True),
      ([''src'', ''group''], Dir True True True),
      ([''src'', ''group'', ''repoB''], Dir True True True),
      ([''src'', ''group'', ''repoB'', ''.git''], File),
      ([''src'', ''node_modules''], Dir True True True),
      ([''src'', ''node_modules'', ''hidden''], Dir True True True),
      ([''src'', ''node_modules'', ''hidden'', ''.git''], Dir True True True)]"

text \<open>A source root with a directory that may not be read, next to a repository.\<close>

definition scenario_locked :: fs where
  "scenario_locked =
     [([], Dir True True True),
      ([''src''], Dir True True True),
      ([''src'', ''locked''], Dir False True True),
      ([''src'', ''locked'', ''repoX''], Dir True True True),
      ([''src'', ''locked'', ''repoX'', ''.git''], Dir True True True),
      ([''src'', ''repoA''], Dir True True True),
      ([''src'', ''repoA'', ''.git''], Dir True True True)]"

text \<open>
  A directory whose \<open>.git\<close> entry is a link to nothing, above a repository; and a
  directory that may be read but not searched, with a \<open>.git\<close> file.
\<close>

definition scenario_dangling :: fs where
  "scenario_dangling =
     [([], Dir True True True),
      ([''src''], Dir True True True),
      ([''src'', ''d''], Dir True True True),
      ([''src'', ''d'', ''.git''], Symlink [''gone'']),
      ([''src'', ''d'', ''sub''], Dir True True True),
      ([''src'', ''d'', ''sub'', ''.git''], Dir True True True)]"

definition scenario_unsearchable :: fs where
  "scenario_unsearchable =
     [([], Dir True True True),
      ([''src''], Dir True True True),
      ([''src'', ''u''], Dir True True False),
      ([''src'', ''u'', ''.git''], File)]"

lemmas fs_eval = findGitRepos_def existsSync_def stat_def readdirSync_def children_def
  hidden_def resolve.simps walk.simps

text \<open>A vault and a source root with one repository; and the same with a read-only vault.\<close>

definition scenario_vault :: fs where
  "scenario_vault =
     [([], Dir True True True),
      ([''vault''], Dir True True True),
      ([''src''], Dir True True True),
      ([''src'', ''repo''], Dir True True True),
      ([''src'', ''repo'', ''.git''], Dir True True True)]"

definition scenario_readonly :: fs where
  "scenario_readonly =
     [([], Dir True True True),
      ([''vault''], Dir True False True),
      ([''src''], Dir True True True),
      ([''src'', ''repo''], Dir True True True),
      ([''src'', ''repo'', ''.git''], Dir True True True)]"

lemmas link_eval = ensureLink_def existsSync_def stat_def resolve.simps mkdirSync_recursive_def
  dirname_def mkdir_def symlinkSync_def mklink_junction_def create_entry_def strip_slashes_def
  Let_def

text \<open>A tool whose every run succeeds and changes nothing.\<close>

definition git_noop :: git_tool where
  "git_noop cmd fs = (True, fs)"

text \<open>A tool whose clone creates the working copy with its marker directory.\<close>

definition git_stub :: git_tool where
  "git_stub cmd fs =
     (case cmd of
        GitPull p \<Rightarrow> (True, fs)
      | GitClone url p \<Rightarrow>
          (True, (strip_slashes p @ [''.git''], Dir True True True) #
                 (strip_slashes p, Dir True True True) # fs))"

text \<open>Two repositories under the source root and a vault that may not be written.\<close>

definition scenario_two :: fs where
  "scenario_two =
     [([], Dir True True True),
      ([''vault''], Dir True False True),
      ([''src''], Dir True True True),
      ([''src'', ''a''], Dir True True True),
      ([''src'', ''a'', ''.git''], Dir True True True),
      ([''src'', ''b''], Dir True True True),
      ([''src'', ''b'', ''.git''], Dir True True True)]"

lemmas cmd_eval = cmdPull_def cmdAdd_def or_else_def path_join_def path_relative_def
  git_noop_def git_stub_def Let_def

text \<open>
  The two locations as the spec words them: the clone destination is the first source
  root joined with the project path; the link is at the vault root joined with the
  override when one is given, otherwise with the project path. An override that is the
  empty string counts as not given.
\<close>

definition clone_destination :: "path \<Rightarrow> parsed \<Rightarrow> path" where
  "clone_destination firstSourceRoot p = path_join firstSourceRoot (projectPath p)"

definition link_name :: "string option \<Rightarrow> parsed \<Rightarrow> string" where
  "link_name override p =
     (case override of
        None \<Rightarrow> projectPath p
      | Some l \<Rightarrow> if l \<noteq> [] then l else projectPath p)"

definition link_location :: "path \<Rightarrow> string option \<Rightarrow> parsed \<Rightarrow> path" where
  "link_location vaultRoot override p = path_join vaultRoot (link_name override p)"

text \<open>
  The working copy as the spec words it: one that exists at the destination \<open>c\<close> is
  synchronised, whatever the tool answers; otherwise the parent directory is created and
  the tool clones into \<open>c\<close> with success. \<open>fs1\<close> is the file system afterwards and
  \<open>evs\<close> what the console shows of it.
\<close>

definition working_copy_ready ::
  "git_tool \<Rightarrow> string \<Rightarrow> path \<Rightarrow> fs \<Rightarrow> fs \<Rightarrow> event list \<Rightarrow> bool"
where
  "working_copy_ready git url c fs fs1 evs =
     ((existsSync fs c \<and> fs1 = snd (git (GitPull c) fs) \<and>
       evs = [Log_repo_exists, Git (GitPull c)]) \<or>
      (\<not> existsSync fs c \<and>
       (\<exists>fs0. mkdirSync_recursive fs (dirname c) = Inr fs0 \<and>
              git (GitClone url c) fs0 = (True, fs1)) \<and>
       evs = [Log_cloning, Git (GitClone url c)]))"

section \<open>Properties of the URL parser\<close>

lemma drop_eq_git: "drop k rest = ''.git'' \<longleftrightarrow> (suffix ''.git'' rest \<and> k + 4 = length rest)"
proof
  assume h: "drop k rest = ''.git''"
  then have "length (drop k rest) = 4" by simp
  then have l: "k + 4 = length rest" by simp
  have "rest = take k rest @ ''.git''" using h by (metis append_take_drop_id)
  then have "suffix ''.git'' rest" unfolding suffix_def by blast
  with l show "suffix ''.git'' rest \<and> k + 4 = length rest" by simp
next
  assume h: "suffix ''.git'' rest \<and> k + 4 = length rest"
  then obtain p where p: "rest = p @ ''.git''" unfolding suffix_def by blast
  with h have "length p = k" by simp
  with p show "drop k rest = ''.git''" by simp
qed

lemma lazy_path_closed:
  "lazy_path rest =
     (if rest = [] \<or> (\<exists>c \<in> set (strip_git rest). line_terminator c) then None
      else Some (strip_git rest))"
proof (cases "rest = []")
  case True
  then show ?thesis by (simp add: lazy_path_def)
next
  case ne: False
  let ?n = "length rest"
  let ?P = "\<lambda>k. (\<forall>c \<in> set (take k rest). \<not> line_terminator c) \<and>
                   (drop k rest = [] \<or> drop k rest = ''.git'')"
  let ?k = "length (strip_git rest)"
  have k1: "1 \<le> ?k" "?k \<le> ?n" using ne by (auto simp: strip_git_def Suc_le_eq)
  have tk: "take ?k rest = strip_git rest" by (simp add: strip_git_def)
  have dk: "drop ?k rest = [] \<or> drop ?k rest = ''.git''"
    by (auto simp: strip_git_def drop_eq_git)
  have least: "\<not> (drop j rest = [] \<or> drop j rest = ''.git'')" if "1 \<le> j" "j < ?k" for j
    using that by (auto simp: strip_git_def drop_eq_git split: if_splits)
  show ?thesis
  proof (cases "\<exists>c \<in> set (strip_git rest). line_terminator c")
    case True
    have "\<not> ?P k" if "k \<in> set [1 ..< Suc ?n]" for k
    proof (cases "k < ?k")
      case True
      with that least show ?thesis by auto
    next
      case False
      then have "set (take ?k rest) \<subseteq> set (take k rest)"
        by (metis linorder_not_less set_take_subset_set_take)
      with \<open>\<exists>c \<in> set (strip_git rest). line_terminator c\<close> tk show ?thesis by auto
    qed
    then have "find ?P [1 ..< Suc ?n] = None" unfolding find_None_iff by blast
    with True ne show ?thesis by (simp add: lazy_path_def)
  next
    case False
    have "find ?P [1 ..< Suc ?n] = Some ?k"
      unfolding find_Some_iff
    proof (intro exI[of _ "?k - 1"] conjI allI impI)
      show "?k - 1 < length [1 ..< Suc ?n]" using k1 by (simp del: upt_Suc)
      show e: "?k = [1 ..< Suc ?n] ! (?k - 1)" using k1 by (simp del: upt_Suc)
      show "\<forall>c\<in>set (take ([1..<Suc ?n] ! (?k - 1)) rest). \<not> line_terminator c"
        using False tk e by metis
      show "drop ([1..<Suc ?n] ! (?k - 1)) rest = [] \<or> drop ([1..<Suc ?n] ! (?k - 1)) rest = ''.git''"
        using dk e by metis
    next
      fix j assume j: "j < ?k - 1"
      then have "[1 ..< Suc ?n] ! j = Suc j" using k1 by (simp del: upt_Suc)
      moreover have "\<not> (drop (Suc j) rest = [] \<or> drop (Suc j) rest = ''.git'')"
        using least[of "Suc j"] j by simp
      ultimately show "\<not> ?P ([1 ..< Suc ?n] ! j)" by metis
    qed
    with False ne tk show ?thesis by (simp add: lazy_path_def)
  qed
qed

lemma split_slash_no_slash: "CHR ''/'' \<notin> set s \<Longrightarrow> split_slash s = [s]"
  by (induction s) auto

lemma split_slash_append:
  "CHR ''/'' \<notin> set s \<Longrightarrow> split_slash (s @ CHR ''/'' # t) = s # split_slash t"
  by (induction s) auto

lemma split_join:
  "segs \<noteq> [] \<Longrightarrow> \<forall>s \<in> set segs. CHR ''/'' \<notin> set s \<Longrightarrow> split_slash (join_slash segs) = segs"
  by (induction segs rule: join_slash.induct) (auto simp: split_slash_no_slash split_slash_append)

lemma sshMatch_shape:
  assumes "host \<noteq> []" "CHR '':'' \<notin> set host"
  shows "sshMatch (''git@'' @ host @ CHR '':'' # rest) = map_option (Pair host) (lazy_path rest)"
proof -
  have t: "takeWhile (\<lambda>c. c \<noteq> CHR '':'') (host @ CHR '':'' # rest) = host"
    using assms(2) by (subst takeWhile_append2) auto
  have d: "dropWhile (\<lambda>c. c \<noteq> CHR '':'') (host @ CHR '':'' # rest) = CHR '':'' # rest"
    using assms(2) by (subst dropWhile_append2) auto
  have a: "after_prefix ''git@'' (''git@'' @ host @ CHR '':'' # rest) = Some (host @ CHR '':'' # rest)"
    by (simp add: after_prefix_def)
  show ?thesis unfolding sshMatch_def a using assms(1) by (simp add: t d)
qed

lemma after_prefix_scheme:
  "(case after_prefix ''https://'' (scheme tls @ u) of Some v \<Rightarrow> Some v
    | None \<Rightarrow> after_prefix ''http://'' (scheme tls @ u)) = Some u"
  by (simp add: after_prefix_def scheme_def)

lemma httpsMatch_shape:
  assumes "host \<noteq> []" "CHR ''/'' \<notin> set host"
  shows "httpsMatch (scheme tls @ host @ CHR ''/'' # rest) = map_option (Pair host) (lazy_path rest)"
proof -
  have t: "takeWhile (\<lambda>c. c \<noteq> CHR ''/'') (host @ CHR ''/'' # rest) = host"
    using assms(2) by (subst takeWhile_append2) auto
  have d: "dropWhile (\<lambda>c. c \<noteq> CHR ''/'') (host @ CHR ''/'' # rest) = CHR ''/'' # rest"
    using assms(2) by (subst dropWhile_append2) auto
  show ?thesis unfolding httpsMatch_def after_prefix_scheme using assms(1) by (simp add: t d)
qed

lemma sshMatch_scheme: "sshMatch (scheme tls @ u) = None"
  by (simp add: sshMatch_def after_prefix_def scheme_def)

lemma parse_ssh:
  assumes "host \<noteq> []" "CHR '':'' \<notin> set host"
  shows "parseGitUrl (''git@'' @ host @ CHR '':'' # rest) =
     (case lazy_path rest of None \<Rightarrow> Inl MalformedIdentifier
      | Some p \<Rightarrow> Inr \<lparr> org = hd (split_slash p), projectPath = join_slash (tl (split_slash p)) \<rparr>)"
proof -
  have h: "httpsMatch (''git@'' @ u) = None" for u
    by (simp add: httpsMatch_def after_prefix_def)
  show ?thesis
    unfolding parseGitUrl_def sshMatch_shape[OF assms]
    using h[of "host @ CHR '':'' # rest"] by (simp add: Let_def split: option.splits)
qed

lemma parse_https:
  assumes "host \<noteq> []" "CHR ''/'' \<notin> set host"
  shows "parseGitUrl (scheme tls @ host @ CHR ''/'' # rest) =
     (case lazy_path rest of None \<Rightarrow> Inl MalformedIdentifier
      | Some p \<Rightarrow> Inr \<lparr> org = hd (split_slash p), projectPath = join_slash (tl (split_slash p)) \<rparr>)"
  unfolding parseGitUrl_def sshMatch_scheme httpsMatch_shape[OF assms]
  by (simp add: Let_def split: option.splits)

lemma strip_git_suffix:
  "p \<noteq> [] \<Longrightarrow> b \<or> \<not> suffix ''.git'' p \<Longrightarrow> strip_git (p @ git_suffix b) = p"
proof -
  have "suffix ''.git'' (p @ ''.git'')" by (rule suffixI) simp
  then show "p \<noteq> [] \<Longrightarrow> b \<or> \<not> suffix ''.git'' p \<Longrightarrow> strip_git (p @ git_suffix b) = p"
    by (auto simp: strip_git_def git_suffix_def)
qed

lemma lazy_path_suffix:
  assumes "p \<noteq> []" "b \<or> \<not> suffix ''.git'' p" "\<forall>c \<in> set p. \<not> line_terminator c"
  shows "lazy_path (p @ git_suffix b) = Some p"
  using assms by (simp add: lazy_path_closed strip_git_suffix)

lemma set_strip_git: "set (strip_git x) \<subseteq> set x"
  by (auto simp: strip_git_def dest: in_set_takeD)

lemma lazy_path_succeeds:
  "x \<noteq> [] \<Longrightarrow> \<forall>c \<in> set x. \<not> line_terminator c \<Longrightarrow> lazy_path x = Some (strip_git x)"
  using set_strip_git[of x] by (auto simp: lazy_path_closed)

lemma git_suffix_no_lt: "c \<in> set (git_suffix b) \<Longrightarrow> \<not> line_terminator c"
  by (auto simp: git_suffix_def line_terminator_def split: if_splits)

lemma suffix_past_slash:
  assumes "suffix ''.git'' (a @ CHR ''/'' # p)"
  shows "suffix ''.git'' p"
proof -
  have sp: "suffix p (a @ CHR ''/'' # p)" by (rule suffixI[of _ "a @ [CHR ''/'']"]) simp
  from suffix_same_cases[OF assms sp] show ?thesis
  proof
    assume "suffix ''.git'' p" then show ?thesis .
  next
    assume "suffix p ''.git''"
    then obtain q where q: "''.git'' = q @ p" unfolding suffix_def by blast
    from assms obtain r where r: "a @ CHR ''/'' # p = r @ ''.git''" unfolding suffix_def by blast
    show ?thesis
    proof (cases "q = []")
      case True
      with q show ?thesis by simp
    next
      case False
      from r q have "(a @ [CHR ''/'']) @ p = (r @ q) @ p" by simp
      then have "a @ [CHR ''/''] = r @ q" by (simp only: append_same_eq)
      with False have "last q = CHR ''/''" by (metis last_appendR last_snoc)
      with False have "CHR ''/'' \<in> set q" by (metis last_in_set)
      then have "CHR ''/'' \<in> set ''.git''" unfolding q by simp
      then show ?thesis by simp
    qed
  qed
qed

lemma after_prefix_Some: "after_prefix p s = Some u \<Longrightarrow> s = p @ u"
  by (auto simp: after_prefix_def split: if_splits) (metis append_take_drop_id)

lemma other_user_no_ssh:
  assumes "user \<noteq> ''git''" "CHR ''@'' \<notin> set user"
  shows "sshMatch (user @ CHR ''@'' # rest) = None"
proof (cases "after_prefix ''git@'' (user @ CHR ''@'' # rest)")
  case None
  then show ?thesis by (simp add: sshMatch_def)
next
  case (Some u)
  then have e: "user @ CHR ''@'' # rest = ''git@'' @ u" by (rule after_prefix_Some)
  have "takeWhile (\<lambda>c. c \<noteq> CHR ''@'') (user @ CHR ''@'' # rest) = user"
    using assms(2) by (subst takeWhile_append2) auto
  moreover have "takeWhile (\<lambda>c. c \<noteq> CHR ''@'') (''git@'' @ u) = ''git''" by simp
  ultimately have "user = ''git''" using e by simp
  with assms(1) show ?thesis by simp
qed

lemma other_user_no_https:
  assumes "CHR '':'' \<notin> set user"
  shows "httpsMatch (user @ CHR ''@'' # rest) = None"
proof -
  have t: "takeWhile (\<lambda>c. c \<noteq> CHR '':'') (user @ CHR ''@'' # rest) =
             user @ CHR ''@'' # takeWhile (\<lambda>c. c \<noteq> CHR '':'') rest"
    using assms by (subst takeWhile_append2) auto
  have "after_prefix ''https://'' (user @ CHR ''@'' # rest) = None"
  proof (cases "after_prefix ''https://'' (user @ CHR ''@'' # rest)")
    case (Some u)
    then have e: "user @ CHR ''@'' # rest = ''https://'' @ u" by (rule after_prefix_Some)
    have "takeWhile (\<lambda>c. c \<noteq> CHR '':'') (''https://'' @ u) = ''https''" by simp
    with t e have "user @ CHR ''@'' # takeWhile (\<lambda>c. c \<noteq> CHR '':'') rest = ''https''" by simp
    then have "CHR ''@'' \<in> set ''https''" by (metis in_set_conv_decomp)
    then show ?thesis by simp
  qed simp
  moreover have "after_prefix ''http://'' (user @ CHR ''@'' # rest) = None"
  proof (cases "after_prefix ''http://'' (user @ CHR ''@'' # rest)")
    case (Some u)
    then have e: "user @ CHR ''@'' # rest = ''http://'' @ u" by (rule after_prefix_Some)
    have "takeWhile (\<lambda>c. c \<noteq> CHR '':'') (''http://'' @ u) = ''http''" by simp
    with t e have "user @ CHR ''@'' # takeWhile (\<lambda>c. c \<noteq> CHR '':'') rest = ''http''" by simp
    then have "CHR ''@'' \<in> set ''http''" by (metis in_set_conv_decomp)
    then show ?thesis by simp
  qed simp
  ultimately show ?thesis by (simp add: httpsMatch_def)
qed

text \<open>
  Claim C4, as the code has it: the SSH shape is recognised for the literal user \<open>git\<close>
  only. For every identifier \<open>git@host:path\<close>, with or without a trailing \<open>.git\<close>,
  whose host is not empty and holds no colon and whose path is the non-empty join of
  segments without a slash or line terminator, the parser succeeds; the organization is
  the first segment and the project path the remaining segments joined by a slash. A
  trailing \<open>.git\<close> of the text after the colon always counts as the suffix, so
  without the suffix the path does not itself end in \<open>.git\<close>. And every identifier
  \<open>user@rest\<close> whose user is another string without \<open>@\<close> and colon is rejected.
\<close>

theorem parse_ssh_git_user:
  "(host \<noteq> [] \<and> CHR '':'' \<notin> set host \<and>
    segs \<noteq> [] \<and> (\<forall>s \<in> set segs. CHR ''/'' \<notin> set s) \<and>
    join_slash segs \<noteq> [] \<and> (\<forall>c \<in> set (join_slash segs). \<not> line_terminator c) \<and>
    (b \<or> \<not> suffix ''.git'' (join_slash segs)) \<longrightarrow>
      parseGitUrl (''git@'' @ host @ '':'' @ join_slash segs @ git_suffix b) =
        Inr \<lparr> org = hd segs, projectPath = join_slash (tl segs) \<rparr>) \<and>
   (user \<noteq> ''git'' \<and> CHR ''@'' \<notin> set user \<and> CHR '':'' \<notin> set user \<longrightarrow>
      parseGitUrl (user @ ''@'' @ rest) = Inl MalformedIdentifier)"
proof (intro conjI impI)
  assume a: "host \<noteq> [] \<and> CHR '':'' \<notin> set host \<and>
    segs \<noteq> [] \<and> (\<forall>s \<in> set segs. CHR ''/'' \<notin> set s) \<and>
    join_slash segs \<noteq> [] \<and> (\<forall>c \<in> set (join_slash segs). \<not> line_terminator c) \<and>
    (b \<or> \<not> suffix ''.git'' (join_slash segs))"
  then have l: "lazy_path (join_slash segs @ git_suffix b) = Some (join_slash segs)"
    by (intro lazy_path_suffix) auto
  from a have h: "host \<noteq> []" "CHR '':'' \<notin> set host" by auto
  have "parseGitUrl (''git@'' @ host @ CHR '':'' # (join_slash segs @ git_suffix b)) =
          Inr \<lparr> org = hd (split_slash (join_slash segs)),
                projectPath = join_slash (tl (split_slash (join_slash segs))) \<rparr>"
    unfolding parse_ssh[OF h] l by simp
  moreover from a have "split_slash (join_slash segs) = segs" by (intro split_join) auto
  ultimately show "parseGitUrl (''git@'' @ host @ '':'' @ join_slash segs @ git_suffix b) =
        Inr \<lparr> org = hd segs, projectPath = join_slash (tl segs) \<rparr>" by simp
next
  assume "user \<noteq> ''git'' \<and> CHR ''@'' \<notin> set user \<and> CHR '':'' \<notin> set user"
  then show "parseGitUrl (user @ ''@'' @ rest) = Inl MalformedIdentifier"
    using other_user_no_ssh[of user rest] other_user_no_https[of user rest]
    by (simp add: parseGitUrl_def)
qed

theorem parse_ssh_git_user_witness:
  "parseGitUrl ''git@github.com:org/group/project.git'' =
     Inr \<lparr> org = ''org'', projectPath = ''group/project'' \<rparr> \<and>
   parseGitUrl ''bob@github.com:org/group/project.git'' = Inl MalformedIdentifier"
  using parse_ssh_git_user[of "''github.com''" "[''org'', ''group'', ''project'']" True
      "''bob''" "''github.com:org/group/project.git''"]
  by (simp add: git_suffix_def line_terminator_def)

text \<open>
  Claim C4 as the spec states it, for any user-like prefix, fails: with the user
  \<open>alice\<close> neither expression matches and the parser ends the process.
\<close>

theorem parse_other_user_fails:
  "parseGitUrl ''alice@host:org/proj.git'' = Inl MalformedIdentifier"
  by (simp add: parseGitUrl_def sshMatch_def httpsMatch_def after_prefix_def)

text \<open>
  Claim C8: an identifier of either shape whose path is one segment (not empty, no
  slash, no line terminator), with or without the suffix \<open>.git\<close>, parses to that
  segment as the organization and to the empty project path.
\<close>

theorem parse_single_segment:
  assumes "host \<noteq> []"
    and "seg \<noteq> []" "CHR ''/'' \<notin> set seg" "\<forall>c \<in> set seg. \<not> line_terminator c"
    and "b \<or> \<not> suffix ''.git'' seg"
  shows "(CHR '':'' \<notin> set host \<longrightarrow>
            parseGitUrl (''git@'' @ host @ '':'' @ seg @ git_suffix b) =
              Inr \<lparr> org = seg, projectPath = [] \<rparr>) \<and>
         (CHR ''/'' \<notin> set host \<longrightarrow>
            parseGitUrl (scheme tls @ host @ ''/'' @ seg @ git_suffix b) =
              Inr \<lparr> org = seg, projectPath = [] \<rparr>)"
proof -
  have l: "lazy_path (seg @ git_suffix b) = Some seg"
    using assms(2,5,4) by (rule lazy_path_suffix)
  have s: "split_slash seg = [seg]" using assms(3) by (rule split_slash_no_slash)
  have "parseGitUrl (''git@'' @ host @ CHR '':'' # (seg @ git_suffix b)) =
          Inr \<lparr> org = seg, projectPath = [] \<rparr>" if "CHR '':'' \<notin> set host"
    unfolding parse_ssh[OF assms(1) that] l by (simp add: s)
  moreover have "parseGitUrl (scheme tls @ host @ CHR ''/'' # (seg @ git_suffix b)) =
          Inr \<lparr> org = seg, projectPath = [] \<rparr>" if "CHR ''/'' \<notin> set host"
    unfolding parse_https[OF assms(1) that] l by (simp add: s)
  ultimately show ?thesis by simp
qed

theorem parse_single_segment_witness:
  "parseGitUrl ''git@host:org.git'' = Inr \<lparr> org = ''org'', projectPath = [] \<rparr> \<and>
   parseGitUrl ''https://host/org.git'' = Inr \<lparr> org = ''org'', projectPath = [] \<rparr>"
  using parse_single_segment[of "''host''" "''org''" True True]
  by (simp add: git_suffix_def line_terminator_def scheme_def)

text \<open>
  Claim C5, as the code has it: for every host (not empty, without colon or slash),
  organization and project path, the SSH identifier \<open>git@host:org/path\<close> and the HTTPS
  identifier \<open>https://host/org/path\<close> parse to the same result when both carry the
  suffix \<open>.git\<close> or neither does, and also when only one of them carries it and the
  project path does not itself end in \<open>.git\<close>; and without a line terminator in
  organization and path the result is a parsed pair.
\<close>

theorem ssh_https_agree:
  assumes "host \<noteq> []" "CHR '':'' \<notin> set host" "CHR ''/'' \<notin> set host"
    and "b1 = b2 \<or> \<not> suffix ''.git'' path"
  shows "parseGitUrl (''git@'' @ host @ '':'' @ organization @ ''/'' @ path @ git_suffix b1) =
         parseGitUrl (scheme tls @ host @ ''/'' @ organization @ ''/'' @ path @ git_suffix b2) \<and>
         ((\<forall>c \<in> set (organization @ path). \<not> line_terminator c) \<longrightarrow>
            (\<exists>r. parseGitUrl (''git@'' @ host @ '':'' @ organization @ ''/'' @ path @ git_suffix b1) = Inr r))"
proof -
  let ?R = "organization @ CHR ''/'' # path"
  have eq: "lazy_path (?R @ git_suffix b1) = lazy_path (?R @ git_suffix b2)"
  proof (cases "b1 = b2")
    case True
    then show ?thesis by simp
  next
    case False
    with assms(4) have "\<not> suffix ''.git'' ?R" using suffix_past_slash by blast
    then have "strip_git (?R @ git_suffix b) = ?R" for b
      by (intro strip_git_suffix) simp_all
    then show ?thesis by (simp add: lazy_path_closed)
  qed
  have p1: "parseGitUrl (''git@'' @ host @ CHR '':'' # (?R @ git_suffix b1)) =
     (case lazy_path (?R @ git_suffix b1) of None \<Rightarrow> Inl MalformedIdentifier
      | Some p \<Rightarrow> Inr \<lparr> org = hd (split_slash p), projectPath = join_slash (tl (split_slash p)) \<rparr>)"
    by (rule parse_ssh[OF assms(1,2)])
  have p2: "parseGitUrl (scheme tls @ host @ CHR ''/'' # (?R @ git_suffix b2)) =
     (case lazy_path (?R @ git_suffix b2) of None \<Rightarrow> Inl MalformedIdentifier
      | Some p \<Rightarrow> Inr \<lparr> org = hd (split_slash p), projectPath = join_slash (tl (split_slash p)) \<rparr>)"
    by (rule parse_https[OF assms(1,3)])
  have ok: "\<exists>r. parseGitUrl (''git@'' @ host @ CHR '':'' # (?R @ git_suffix b1)) = Inr r"
    if "\<forall>c \<in> set (organization @ path). \<not> line_terminator c"
  proof -
    have "\<forall>c \<in> set (?R @ git_suffix b1). \<not> line_terminator c"
      using that git_suffix_no_lt[of _ b1] by (auto simp: line_terminator_def)
    then have "lazy_path (?R @ git_suffix b1) = Some (strip_git (?R @ git_suffix b1))"
      by (intro lazy_path_succeeds) simp_all
    then show ?thesis unfolding p1 by simp
  qed
  from p1 p2 eq ok show ?thesis by simp
qed

theorem ssh_https_agree_witness:
  "parseGitUrl ''git@github.com:org/group/project.git'' =
     parseGitUrl ''https://github.com/org/group/project''"
  using ssh_https_agree[of "''github.com''" True False "''group/project''" "''org''" True]
  by (simp add: git_suffix_def line_terminator_def scheme_def suffix_to_prefix)

text \<open>
  Claim C5 as the spec states it, with the suffix optional on each side by itself, fails
  for a project path that ends in \<open>.git\<close>: the parser removes one suffix only, so the
  SSH identifier with the suffix keeps \<open>x.git\<close> where the HTTPS identifier without it
  keeps \<open>x\<close>.
\<close>

theorem ssh_https_differ:
  "parseGitUrl ''git@h:o/x.git.git'' = Inr \<lparr> org = ''o'', projectPath = ''x.git'' \<rparr> \<and>
   parseGitUrl ''https://h/o/x.git'' = Inr \<lparr> org = ''o'', projectPath = ''x'' \<rparr>"
  by (simp add: parseGitUrl_def sshMatch_def httpsMatch_def after_prefix_def lazy_path_def
      line_terminator_def)

section \<open>Properties of repository discovery\<close>

lemma walk_unfold:
  "walk fs d =
     (if existsSync fs (d @ [''.git'']) then [d]
      else (case readdirSync fs d of
              Inl e \<Rightarrow> []
            | Inr entries \<Rightarrow>
                concat (map (\<lambda>e. if eligible e then walk fs (d @ [fst e]) else []) entries)))"
  by (subst walk.simps) (auto simp: eligible_def case_prod_beta split: sum.splits intro!: arg_cong[where f = concat])

lemma walk_in_child:
  assumes "\<not> existsSync fs (d @ [''.git''])" "readdirSync fs d = Inr entries"
  shows "p \<in> set (walk fs d) \<longleftrightarrow> (\<exists>e \<in> set entries. eligible e \<and> p \<in> set (walk fs (d @ [fst e])))"
  using assms by (subst walk_unfold) auto

lemma walk_rel:
  "p \<in> set (walk fs d) \<Longrightarrow>
     \<exists>rel. p = d @ rel \<and> (\<forall>s \<in> set rel. \<not> hidden s \<and> s \<noteq> ''node_modules'')"
proof (induction fs d arbitrary: p rule: walk.induct)
  case (1 fs d)
  show ?case
  proof (cases "existsSync fs (d @ [''.git''])")
    case True
    with "1.prems" have "p = d" by (subst (asm) walk.simps) simp
    then show ?thesis by simp
  next
    case False
    show ?thesis
    proof (cases "readdirSync fs d")
      case (Inl e)
      with False "1.prems" show ?thesis by (subst (asm) walk.simps) simp
    next
      case (Inr entries)
      from "1.prems" walk_in_child[OF False Inr] obtain e
        where e: "e \<in> set entries" "eligible e" "p \<in> set (walk fs (d @ [fst e]))" by blast
      from e(2) have el: "is_Dir (snd e) \<and> \<not> hidden (fst e) \<and> fst e \<noteq> ''node_modules''"
        by (simp add: eligible_def)
      from "1.IH"[OF False Inr e(1) _ el e(3)] obtain rel
        where "p = (d @ [fst e]) @ rel" "\<forall>s \<in> set rel. \<not> hidden s \<and> s \<noteq> ''node_modules''"
        by auto
      with el have "p = d @ (fst e # rel) \<and> (\<forall>s \<in> set (fst e # rel). \<not> hidden s \<and> s \<noteq> ''node_modules'')"
        by simp
      then show ?thesis by blast
    qed
  qed
qed

lemma branches_apart:
  assumes "prefix (d @ [a]) p" "prefix (d @ [b]) q" "a \<noteq> b"
  shows "\<not> prefix p q"
proof
  assume "prefix p q"
  with assms(1) have "prefix (d @ [a]) q" by (rule prefix_order.trans)
  from prefix_same_cases[OF this assms(2)] have "d @ [a] = d @ [b]"
    by auto
  with assms(3) show False by simp
qed

lemma antichain_append:
  assumes "antichain xs" "antichain ys"
    and "\<And>p q. p \<in> set xs \<Longrightarrow> q \<in> set ys \<Longrightarrow> \<not> prefix p q \<and> \<not> prefix q p"
  shows "antichain (xs @ ys)"
proof -
  have "set xs \<inter> set ys = {}" using assms(3) by fastforce
  with assms show ?thesis unfolding antichain_def by auto
qed

lemma antichain_concat:
  assumes "distinct (map fst es)"
    and "\<And>e. e \<in> set es \<Longrightarrow> antichain (f e)"
    and "\<And>e p. e \<in> set es \<Longrightarrow> p \<in> set (f e) \<Longrightarrow> prefix (d @ [fst e]) p"
  shows "antichain (concat (map f es))"
  using assms
proof (induction es)
  case Nil
  then show ?case by (simp add: antichain_def)
next
  case (Cons e es)
  have rest: "antichain (concat (map f es))"
    using Cons.prems by (intro Cons.IH) auto
  have apart: "\<not> prefix p q \<and> \<not> prefix q p"
    if "p \<in> set (f e)" "q \<in> set (concat (map f es))" for p q
  proof -
    from that(2) obtain e' where e': "e' \<in> set es" "q \<in> set (f e')" by auto
    with Cons.prems(1) have ne: "fst e \<noteq> fst e'" by force
    have pp: "prefix (d @ [fst e]) p" using Cons.prems(3) that(1) by simp
    have pq: "prefix (d @ [fst e']) q" using Cons.prems(3) e' by simp
    from branches_apart[OF pp pq ne] branches_apart[OF pq pp ne[symmetric]] show ?thesis by simp
  qed
  have "antichain (f e @ concat (map f es))"
    using Cons.prems(2)[of e] rest apart by (intro antichain_append) auto
  then show ?case by simp
qed

lemma distinct_children: "distinct (map fst (children fs c))"
proof -
  have "distinct (map fst (List.map_filter (\<lambda>name. map_option (Pair name) (h name)) xs))"
    if "distinct xs" for xs :: "string list" and h :: "string \<Rightarrow> node option"
    using that
  proof (induction xs)
    case Nil
    then show ?case by simp
  next
    case (Cons x xs)
    have "fst ` set (List.map_filter (\<lambda>name. map_option (Pair name) (h name)) xs) \<subseteq> set xs"
      by (auto simp: List.map_filter_def)
    with Cons show ?case by (auto split: option.splits)
  qed
  then show ?thesis unfolding children_def by simp
qed

lemma readdir_distinct: "readdirSync fs d = Inr entries \<Longrightarrow> distinct (map fst entries)"
  by (auto simp: readdirSync_def distinct_children split: option.splits node.splits if_splits)

lemma walk_prefix: "p \<in> set (walk fs d) \<Longrightarrow> prefix d p"
  by (drule walk_rel) auto

lemma walk_antichain: "antichain (walk fs d)"
proof (induction fs d rule: walk.induct)
  case (1 fs d)
  show ?case
  proof (cases "existsSync fs (d @ [''.git''])")
    case True
    then show ?thesis by (subst walk.simps) (simp add: antichain_def)
  next
    case False
    show ?thesis
    proof (cases "readdirSync fs d")
      case (Inl e)
      with False show ?thesis by (subst walk.simps) (simp add: antichain_def)
    next
      case (Inr entries)
      let ?f = "\<lambda>e. if eligible e then walk fs (d @ [fst e]) else []"
      have "antichain (concat (map ?f entries))"
      proof (rule antichain_concat[where d = d])
        show "distinct (map fst entries)" using Inr by (rule readdir_distinct)
      next
        fix e assume e: "e \<in> set entries"
        show "antichain (?f e)"
        proof (cases "eligible e")
          case True
          then have "is_Dir (snd e) \<and> \<not> hidden (fst e) \<and> fst e \<noteq> ''node_modules''"
            by (simp add: eligible_def)
          from "1.IH"[OF False Inr e _ this] True show ?thesis by simp
        next
          case False
          then show ?thesis by (simp add: antichain_def)
        qed
      next
        fix e p assume "e \<in> set entries" "p \<in> set (?f e)"
        then show "prefix (d @ [fst e]) p" by (auto dest: walk_prefix split: if_splits)
      qed
      with False Inr show ?thesis by (subst walk_unfold) simp
    qed
  qed
qed

lemma visits_exists: "visits fs root d \<Longrightarrow> stat fs d \<noteq> None \<Longrightarrow> existsSync fs root"
proof (induction rule: visits.induct)
  case start
  then show ?case by (simp add: existsSync_def)
next
  case (step d entries name n)
  from step.hyps(3) have "stat fs d \<noteq> None"
    by (auto simp: readdirSync_def split: option.splits)
  then show ?case by (rule step.IH)
qed

lemma visits_subset: "visits fs root d \<Longrightarrow> set (walk fs d) \<subseteq> set (walk fs root)"
proof (induction rule: visits.induct)
  case start
  then show ?case by simp
next
  case (step d entries name n)
  have "eligible (name, n)" using step.hyps(5,6,7) by (simp add: eligible_def)
  with step.hyps(4) have "set (walk fs (d @ [name])) \<subseteq> set (walk fs d)"
    using walk_in_child[OF step.hyps(2,3)] by force
  with step.IH show ?case by blast
qed

lemma visits_below:
  "visits fs root d \<Longrightarrow> p \<in> set (walk fs root) \<Longrightarrow> prefix d p \<Longrightarrow> p \<in> set (walk fs d)"
proof (induction rule: visits.induct)
  case start
  then show ?case by simp
next
  case (step d entries name n)
  from step.prems(2) have "prefix d p" by (metis prefix_order.trans prefixI)
  from step.IH[OF step.prems(1) this] walk_in_child[OF step.hyps(2,3)]
  obtain e where e: "e \<in> set entries" "eligible e" "p \<in> set (walk fs (d @ [fst e]))" by blast
  have "fst e = name"
  proof (rule ccontr)
    assume ne: "fst e \<noteq> name"
    from branches_apart[OF walk_prefix[OF e(3)] step.prems(2) ne] branches_apart[OF step.prems(2) walk_prefix[OF e(3)] ne[symmetric]]
    show False by simp
  qed
  with e(3) show ?case by simp
qed

lemma marker_visible:
  assumes "stat fs d = Some (c, Dir r w True)" "map_of fs (c @ [''.git'']) = Some n"
    and "n = File \<or> is_Dir n \<or> (\<exists>t. n = Symlink t \<and> existsSync fs t)"
  shows "existsSync fs (d @ [''.git''])"
proof (cases "\<exists>t. n = Symlink t")
  case False
  then have "resolve fs (c @ [''.git'']) [] = Some (c @ [''.git''], n)"
    using assms(2) by (intro resolve_at_node) auto
  then show ?thesis unfolding existsSync_def using stat_child[OF assms(1), of "''.git''"] by simp
next
  case True
  then obtain t where t: "n = Symlink t" by blast
  with assms(3) have "stat fs t \<noteq> None" by (auto simp: existsSync_def)
  moreover have "resolve fs (c @ [''.git'']) [] = resolve fs [] t"
    by (subst resolve.simps) (simp add: assms(2) t)
  ultimately show ?thesis unfolding existsSync_def using stat_child[OF assms(1), of "''.git''"]
    by (simp add: stat_def)
qed

text \<open>
  Claim C6: the result of \<open>findGitRepos\<close> holds no path twice and no two paths of which
  one is a prefix of the other (so nothing beneath a found repository is returned), and
  every returned path is the root followed by segments none of which is hidden or is
  \<open>node_modules\<close>: nothing at or beneath a hidden directory or the dependency cache of
  the walked tree is returned.
\<close>

theorem findGitRepos_antichain:
  "distinct (findGitRepos fs dir) \<and>
   (\<forall>p \<in> set (findGitRepos fs dir). \<forall>q \<in> set (findGitRepos fs dir). prefix p q \<longrightarrow> p = q) \<and>
   (\<forall>p \<in> set (findGitRepos fs dir).
      \<exists>rel. p = dir @ rel \<and> (\<forall>s \<in> set rel. \<not> hidden s \<and> s \<noteq> ''node_modules''))"
proof (cases "existsSync fs dir")
  case False
  then show ?thesis by (simp add: findGitRepos_def)
next
  case True
  then have e: "findGitRepos fs dir = walk fs dir" by (simp add: findGitRepos_def)
  from walk_antichain[of fs dir] have "distinct (walk fs dir)"
    and "\<forall>p \<in> set (walk fs dir). \<forall>q \<in> set (walk fs dir). prefix p q \<longrightarrow> p = q"
    by (simp_all add: antichain_def)
  moreover have "\<forall>p \<in> set (walk fs dir).
      \<exists>rel. p = dir @ rel \<and> (\<forall>s \<in> set rel. \<not> hidden s \<and> s \<noteq> ''node_modules'')"
    using walk_rel by blast
  ultimately show ?thesis unfolding e by blast
qed

theorem findGitRepos_antichain_witness:
  "findGitRepos scenario_A [''src''] = [[''src'', ''repoA''], [''src'', ''group'', ''repoB'']] \<and>
   distinct (findGitRepos scenario_A [''src''])"
  using findGitRepos_antichain[of scenario_A "[''src'']"]
  by (simp add: fs_eval scenario_A_def)

text \<open>
  Claim C7: discovery is a total function of the file system. A root that does not
  exist gives the empty list. A visited directory whose listing throws is not descended
  into: no path strictly beneath it is returned, and the directory itself is returned
  only when the marker check before the listing saw a \<open>.git\<close> entry. The rest of the
  walk goes on: whatever the walk finds from any visited directory is in the result.
\<close>

theorem discovery_total:
  "(\<not> existsSync fs dir \<longrightarrow> findGitRepos fs dir = []) \<and>
   (visits fs dir d \<and> readdirSync fs d = Inl e \<longrightarrow>
      (\<forall>p \<in> set (findGitRepos fs dir). \<not> strict_prefix d p) \<and>
      (\<not> existsSync fs (d @ [''.git'']) \<longrightarrow> d \<notin> set (findGitRepos fs dir))) \<and>
   (visits fs dir d' \<and> existsSync fs dir \<longrightarrow> set (walk fs d') \<subseteq> set (findGitRepos fs dir))"
proof (intro conjI impI)
  assume "\<not> existsSync fs dir"
  then show "findGitRepos fs dir = []" by (simp add: findGitRepos_def)
next
  assume a: "visits fs dir d \<and> readdirSync fs d = Inl e"
  have w: "walk fs d = (if existsSync fs (d @ [''.git'']) then [d] else [])"
    using a by (subst walk.simps) simp
  have sub: "set (findGitRepos fs dir) \<subseteq> set (walk fs dir)" by (simp add: findGitRepos_def)
  show "\<forall>p \<in> set (findGitRepos fs dir). \<not> strict_prefix d p"
  proof (intro ballI notI)
    fix p assume p: "p \<in> set (findGitRepos fs dir)" "strict_prefix d p"
    from a have v: "visits fs dir d" by simp
    from p sub have "p \<in> set (walk fs dir)" "prefix d p" by (auto simp: strict_prefix_def)
    with v have "p \<in> set (walk fs d)" by (rule visits_below)
    with w p(2) show False by (auto split: if_splits)
  qed
  show "d \<notin> set (findGitRepos fs dir)" if "\<not> existsSync fs (d @ [''.git''])"
  proof
    assume "d \<in> set (findGitRepos fs dir)"
    with sub have "d \<in> set (walk fs dir)" by auto
    with a have "d \<in> set (walk fs d)" by (auto intro: visits_below[of fs dir d d])
    with w that show False by simp
  qed
next
  assume "visits fs dir d' \<and> existsSync fs dir"
  then show "set (walk fs d') \<subseteq> set (findGitRepos fs dir)"
    using visits_subset[of fs dir d'] by (simp add: findGitRepos_def)
qed

theorem discovery_total_witness:
  "findGitRepos scenario_locked [''src''] = [[''src'', ''repoA'']] \<and>
   findGitRepos scenario_locked [''nowhere''] = [] \<and>
   visits scenario_locked [''src''] [''src'', ''locked''] \<and>
   readdirSync scenario_locked [''src'', ''locked''] = Inl EACCES \<and>
   [''src'', ''locked''] \<notin> set (findGitRepos scenario_locked [''src''])"
proof -
  have v: "visits scenario_locked [''src''] ([''src''] @ [''locked''])"
    by (rule visits.step[OF visits.start, where n = "Dir False True True"])
       (simp add: fs_eval scenario_locked_def)+
  have r: "readdirSync scenario_locked [''src'', ''locked''] = Inl EACCES"
    by (simp add: fs_eval scenario_locked_def)
  have m: "\<not> existsSync scenario_locked ([''src'', ''locked''] @ [''.git''])"
    by (simp add: fs_eval scenario_locked_def)
  from discovery_total[of scenario_locked "[''src'']" "[''src'', ''locked'']" EACCES "[''src'']"] v r m
  have "[''src'', ''locked''] \<notin> set (findGitRepos scenario_locked [''src''])" by simp
  moreover have n: "\<not> existsSync scenario_locked [''nowhere'']"
    by (simp add: fs_eval scenario_locked_def)
  from discovery_total[of scenario_locked "[''nowhere'']" "[''nowhere'']" EACCES "[''nowhere'']"] n
  have "findGitRepos scenario_locked [''nowhere''] = []" by simp
  moreover have "findGitRepos scenario_locked [''src''] = [[''src'', ''repoA'']]"
    by (simp add: fs_eval scenario_locked_def)
  ultimately show ?thesis using v r by simp
qed

text \<open>
  Claim C10, as the code has it: a visited directory that can be searched and has an
  entry named \<open>.git\<close> that is a plain file, a directory (whatever its permissions and
  contents) or a link to something that exists is recorded as a repository root, and the
  walk returns nothing else from it: the marker check asks \<open>existsSync\<close> only, with
  no test of the type.
\<close>

theorem marker_of_any_kind:
  assumes "visits fs dir d"
    and "stat fs d = Some (c, Dir r w True)" "map_of fs (c @ [''.git'']) = Some n"
    and "n = File \<or> is_Dir n \<or> (\<exists>t. n = Symlink t \<and> existsSync fs t)"
  shows "walk fs d = [d] \<and> d \<in> set (findGitRepos fs dir) \<and>
         (\<forall>p \<in> set (findGitRepos fs dir). prefix d p \<longrightarrow> p = d)"
proof -
  have m: "existsSync fs (d @ [''.git''])" using assms(2,3,4) by (rule marker_visible)
  then have w: "walk fs d = [d]" by (subst walk.simps) simp
  have "existsSync fs dir" using assms(1) by (rule visits_exists) (simp add: assms(2))
  then have e: "findGitRepos fs dir = walk fs dir" by (simp add: findGitRepos_def)
  have "d \<in> set (walk fs dir)" using visits_subset[OF assms(1)] w by auto
  moreover have "p = d" if "p \<in> set (walk fs dir)" "prefix d p" for p
    using visits_below[OF assms(1) that] w by simp
  ultimately show ?thesis unfolding e using w by blast
qed

theorem marker_of_any_kind_witness:
  "visits scenario_A [''src''] [''src'', ''group'', ''repoB''] \<and>
   map_of scenario_A [''src'', ''group'', ''repoB'', ''.git''] = Some File \<and>
   walk scenario_A [''src'', ''group'', ''repoB''] = [[''src'', ''group'', ''repoB'']] \<and>
   [''src'', ''group'', ''repoB''] \<in> set (findGitRepos scenario_A [''src''])"
proof -
  have v1: "visits scenario_A [''src''] ([''src''] @ [''group''])"
    by (rule visits.step[OF visits.start, where n = "Dir True True True"])
       (simp add: fs_eval scenario_A_def)+
  have v2: "visits scenario_A [''src''] (([''src''] @ [''group'']) @ [''repoB''])"
    by (rule visits.step[OF v1, where n = "Dir True True True"])
       (simp add: fs_eval scenario_A_def)+
  then have v: "visits scenario_A [''src''] [''src'', ''group'', ''repoB'']" by simp
  have s: "stat scenario_A [''src'', ''group'', ''repoB''] =
             Some ([''src'', ''group'', ''repoB''], Dir True True True)"
    by (simp add: fs_eval scenario_A_def)
  have m: "map_of scenario_A ([''src'', ''group'', ''repoB''] @ [''.git'']) = Some File"
    by (simp add: scenario_A_def)
  from marker_of_any_kind[OF v s m] v m show ?thesis by simp
qed

text \<open>
  Claim C10 as the spec states it, for a \<open>.git\<close> entry of any kind, fails where
  \<open>existsSync\<close> does not see the entry. A \<open>.git\<close> that is a link to nothing does not
  stop the walk: the directory is not recorded and the repository beneath it is. A
  \<open>.git\<close> file in a directory that may not be searched is not seen either, and the
  directory is not recorded.
\<close>

theorem marker_not_seen:
  "map_of scenario_dangling [''src'', ''d'', ''.git''] = Some (Symlink [''gone'']) \<and>
   findGitRepos scenario_dangling [''src''] = [[''src'', ''d'', ''sub'']] \<and>
   map_of scenario_unsearchable [''src'', ''u'', ''.git''] = Some File \<and>
   findGitRepos scenario_unsearchable [''src''] = []"
  by (simp add: fs_eval scenario_dangling_def scenario_unsearchable_def)


section \<open>Properties of link reconciliation\<close>

lemma strip_slashes_last: "strip_slashes p \<noteq> [] \<Longrightarrow> last (strip_slashes p) \<noteq> []"
proof -
  assume a: "strip_slashes p \<noteq> []"
  then have d: "dropWhile (\<lambda>s. s = []) (rev p) \<noteq> []" by (simp add: strip_slashes_def)
  then have "hd (dropWhile (\<lambda>s. s = []) (rev p)) \<noteq> []" using hd_dropWhile[OF d] by simp
  with d show ?thesis by (simp add: strip_slashes_def last_rev)
qed

lemma strip_slashes_id: "p \<noteq> [] \<Longrightarrow> last p \<noteq> [] \<Longrightarrow> strip_slashes p = p"
  by (cases p rule: rev_cases) (simp_all add: strip_slashes_def)

lemma create_entry_Inr:
  assumes "create_entry fs p n = Inr fs'"
  shows "strip_slashes p \<noteq> [] \<and> (\<not> is_Dir n \<longrightarrow> strip_slashes p = p) \<and>
         (\<exists>c r. stat fs (butlast (strip_slashes p)) = Some (c, Dir r True True) \<and>
            map_of fs (c @ [last (strip_slashes p)]) = None \<and>
            fs' = (c @ [last (strip_slashes p)], n) # fs)"
  using assms
  by (auto simp: create_entry_def Let_def split: if_splits option.splits node.splits)

lemma create_entry_ok:
  assumes "p \<noteq> []" "last p \<noteq> []" "stat fs (butlast p) = Some (c, Dir r True True)"
    and "map_of fs (c @ [last p]) = None"
  shows "create_entry fs p n = Inr ((c @ [last p], n) # fs)"
  using assms by (simp add: create_entry_def Let_def strip_slashes_id)

lemma create_entry_le:
  assumes "create_entry fs p n = Inr fs'"
  shows "map_of fs \<subseteq>\<^sub>m map_of fs'"
proof -
  from create_entry_Inr[OF assms] obtain c where
    "map_of fs (c @ [last (strip_slashes p)]) = None"
    "fs' = (c @ [last (strip_slashes p)], n) # fs" by blast
  then show ?thesis by (auto simp: map_le_def)
qed

lemma mkdirp_le: "mkdirp fs c ss = Inr fs' \<Longrightarrow> map_of fs \<subseteq>\<^sub>m map_of fs'"
proof (induction ss arbitrary: fs c)
  case Nil
  then show ?case by simp
next
  case (Cons s ss)
  show ?case
  proof (cases "stat fs (c @ [s])")
    case None
    with Cons.prems obtain fs1 where m: "mkdir fs (c @ [s]) = Inr fs1"
      and r: "mkdirp fs1 (c @ [s]) ss = Inr fs'"
      by (auto split: sum.splits)
    from m have "map_of fs \<subseteq>\<^sub>m map_of fs1" unfolding mkdir_def by (rule create_entry_le)
    with Cons.IH[OF r] show ?thesis by (rule map_le_trans[rotated])
  next
    case (Some y)
    with Cons.prems have "mkdirp fs (c @ [s]) ss = Inr fs'"
      by (cases y) (auto split: node.splits)
    then show ?thesis by (rule Cons.IH)
  qed
qed

lemma stat_mono: "stat fs p = Some y \<Longrightarrow> map_of fs \<subseteq>\<^sub>m map_of fs' \<Longrightarrow> stat fs' p = Some y"
  unfolding stat_def by (rule resolve_mono)

text \<open>
  Claim C3, as the code has it: for every link path and target path such that the
  target path exists, the recursive creation of the parent directory of the link path
  succeeds and the link primitive of the platform then succeeds, nothing was to be seen at
  the link path and the first call returns \<open>created\<close>; afterwards the parent directory
  holds a link to the target under the last segment of the link path, the link path
  resolves to what the target path resolved to, and a second call on the file system the
  first one left returns \<open>exists\<close> and leaves it as it is.
\<close>

theorem reconcile_twice:
  assumes "mkdirSync_recursive fs (dirname linkPath) = Inr fs1"
    and "(if win32 then mklink_junction fs1 linkPath targetPath
          else symlinkSync fs1 targetPath linkPath) = Inr fs'"
    and "existsSync fs targetPath"
  shows "\<not> existsSync fs linkPath \<and>
         ensureLink win32 fs linkPath targetPath = Inr (Created, fs') \<and>
         (\<exists>c r w x. stat fs' (dirname linkPath) = Some (c, Dir r w x) \<and>
                    map_of fs' (c @ [last linkPath]) = Some (Symlink targetPath)) \<and>
         existsSync fs' linkPath \<and> stat fs' linkPath = stat fs targetPath \<and>
         ensureLink win32 fs' linkPath targetPath = Inr (Exists, fs')"
proof -
  from assms(2) have cr: "create_entry fs1 linkPath (Symlink targetPath) = Inr fs'"
    by (simp add: mklink_junction_def symlinkSync_def split: if_splits)
  from create_entry_Inr[OF cr] obtain c r where
    sl: "strip_slashes linkPath = linkPath" and l: "linkPath \<noteq> []"
    and p: "stat fs1 (butlast linkPath) = Some (c, Dir r True True)"
    and none: "map_of fs1 (c @ [last linkPath]) = None"
    and fs': "fs' = (c @ [last linkPath], Symlink targetPath) # fs1" by auto
  from strip_slashes_last[of linkPath] sl l have ll: "last linkPath \<noteq> []" by simp
  have le1: "map_of fs \<subseteq>\<^sub>m map_of fs1"
    using assms(1) unfolding mkdirSync_recursive_def by (rule mkdirp_le)
  have le2: "map_of fs1 \<subseteq>\<^sub>m map_of fs'" using cr by (rule create_entry_le)
  have "stat fs1 (butlast linkPath @ [last linkPath]) = resolve fs1 (c @ [last linkPath]) []"
    using stat_child[OF p ll] by simp
  also have "\<dots> = None" by (subst resolve.simps) (simp add: none)
  finally have "stat fs1 linkPath = None" using l by simp
  then have "stat fs linkPath = None" using stat_mono[OF _ le1, of linkPath] by (cases "stat fs linkPath") auto
  then have ne: "\<not> existsSync fs linkPath" by (simp add: existsSync_def)
  have first: "ensureLink win32 fs linkPath targetPath = Inr (Created, fs')"
    using ne assms(1,2) by (simp add: ensureLink_def)
  have p': "stat fs' (butlast linkPath) = Some (c, Dir r True True)"
    using p le2 by (rule stat_mono)
  have m: "map_of fs' (c @ [last linkPath]) = Some (Symlink targetPath)" by (simp add: fs')
  have "stat fs' (butlast linkPath @ [last linkPath]) = resolve fs' (c @ [last linkPath]) []"
    using stat_child[OF p' ll] by simp
  also have "\<dots> = resolve fs' [] targetPath"
    by (subst resolve.simps) (simp add: m)
  finally have via: "stat fs' linkPath = stat fs' targetPath" using l by (simp add: stat_def)
  from assms(3) obtain y where y: "stat fs targetPath = Some y" by (auto simp: existsSync_def)
  then have "stat fs1 targetPath = Some y" using le1 by (rule stat_mono)
  then have "stat fs' targetPath = Some y" using le2 by (rule stat_mono)
  with via y have eq: "stat fs' linkPath = stat fs targetPath" by simp
  with y have ex: "existsSync fs' linkPath" by (simp add: existsSync_def)
  then have "ensureLink win32 fs' linkPath targetPath = Inr (Exists, fs')"
    by (simp add: ensureLink_def)
  with ne first p' m eq ex show ?thesis unfolding dirname_def sl by blast
qed

theorem reconcile_twice_witness:
  "mkdirSync_recursive scenario_vault (dirname [''vault'', ''group'', ''repo'']) =
     Inr (([''vault'', ''group''], Dir True True True) # scenario_vault) \<and>
   symlinkSync (([''vault'', ''group''], Dir True True True) # scenario_vault)
       [''src'', ''repo''] [''vault'', ''group'', ''repo''] =
     Inr (([''vault'', ''group'', ''repo''], Symlink [''src'', ''repo'']) #
          ([''vault'', ''group''], Dir True True True) # scenario_vault) \<and>
   existsSync scenario_vault [''src'', ''repo''] \<and>
   ensureLink False scenario_vault [''vault'', ''group'', ''repo''] [''src'', ''repo''] =
     Inr (Created, ([''vault'', ''group'', ''repo''], Symlink [''src'', ''repo'']) #
                   ([''vault'', ''group''], Dir True True True) # scenario_vault) \<and>
   ensureLink False
     (([''vault'', ''group'', ''repo''], Symlink [''src'', ''repo'']) #
      ([''vault'', ''group''], Dir True True True) # scenario_vault)
     [''vault'', ''group'', ''repo''] [''src'', ''repo''] =
     Inr (Exists, ([''vault'', ''group'', ''repo''], Symlink [''src'', ''repo'']) #
                  ([''vault'', ''group''], Dir True True True) # scenario_vault)"
proof -
  have m: "mkdirSync_recursive scenario_vault (dirname [''vault'', ''group'', ''repo'']) =
     Inr (([''vault'', ''group''], Dir True True True) # scenario_vault)"
    by (simp add: link_eval scenario_vault_def)
  have l: "(if False
            then mklink_junction (([''vault'', ''group''], Dir True True True) # scenario_vault)
                   [''vault'', ''group'', ''repo''] [''src'', ''repo'']
            else symlinkSync (([''vault'', ''group''], Dir True True True) # scenario_vault)
                   [''src'', ''repo''] [''vault'', ''group'', ''repo'']) =
     Inr (([''vault'', ''group'', ''repo''], Symlink [''src'', ''repo'']) #
          ([''vault'', ''group''], Dir True True True) # scenario_vault)"
    by (simp add: link_eval scenario_vault_def)
  have t: "existsSync scenario_vault [''src'', ''repo'']"
    by (simp add: link_eval scenario_vault_def)
  from reconcile_twice[OF m l t] m l t show ?thesis by simp
qed

text \<open>
  Claim C3 as the spec states it, for every link path without an entry and every target
  path, fails in two ways. With a target path that does not exist the first call returns
  \<open>created\<close>, and the second call does not see the dangling link (\<open>existsSync\<close> follows
  it), tries to create it again and returns \<open>failed\<close>. With a vault directory that may
  not be written the first call returns \<open>failed\<close>.
\<close>

theorem reconcile_twice_counterexample:
  "map_of scenario_vault [''vault'', ''repo''] = None \<and>
   \<not> existsSync scenario_vault [''vault'', ''repo''] \<and>
   ensureLink False scenario_vault [''vault'', ''repo''] [''src'', ''gone''] =
     Inr (Created, ([''vault'', ''repo''], Symlink [''src'', ''gone'']) # scenario_vault) \<and>
   ensureLink False (([''vault'', ''repo''], Symlink [''src'', ''gone'']) # scenario_vault)
       [''vault'', ''repo''] [''src'', ''gone''] =
     Inr (Failed, ([''vault'', ''repo''], Symlink [''src'', ''gone'']) # scenario_vault) \<and>
   map_of scenario_readonly [''vault'', ''repo''] = None \<and>
   \<not> existsSync scenario_readonly [''vault'', ''repo''] \<and>
   ensureLink False scenario_readonly [''vault'', ''repo''] [''src'', ''repo''] =
     Inr (Failed, scenario_readonly)"
  by (simp add: link_eval scenario_vault_def scenario_readonly_def)

text \<open>
  Claim C1 against the code: when the parent directory of the link has to be created and
  cannot be, \<open>mkdirSync\<close> throws outside the \<open>try\<close> block and \<open>ensureLink\<close> returns no
  outcome at all.
\<close>

theorem ensureLink_throws:
  "ensureLink False scenario_readonly [''vault'', ''group'', ''repo''] [''src'', ''repo''] =
     Inl EACCES"
  by (simp add: link_eval scenario_readonly_def)

section \<open>Properties of the commands\<close>

text \<open>
  Claim C2 against the code: both reconciliations of this run return \<open>failed\<close>. The run
  goes on to the second repository and to the summary, but its output has, for each
  repository, the item prefix and the run of the tool only: no line tells of the failed
  link, and the summary counts no link.
\<close>

theorem cmdPull_link_failure_silent:
  "ensureLink False scenario_two [''vault'', ''a''] [''src'', ''a''] = Inr (Failed, scenario_two) \<and>
   ensureLink False scenario_two [''vault'', ''b''] [''src'', ''b''] = Inr (Failed, scenario_two) \<and>
   cmdPull git_noop False [''vault''] [[''src'']] scenario_two =
     Inr (scenario_two,
          [Log_pulling_vault, Git (GitPull [''vault'']), Log_blank,
           Write_item ''a'', Git (GitPull [''src'', ''a'']),
           Write_item ''b'', Git (GitPull [''src'', ''b'']),
           Log_blank, Log_summary 2 0])"
  by (simp add: cmd_eval link_eval fs_eval scenario_two_def)

text \<open>
  Claim C9: for every identifier that parses, \<open>cmdAdd\<close> gets the working copy at the first
  source root joined with the project path and reconciles the link at the vault root
  joined with the override, or with the project path without one, against that working
  copy. Once the working copy is ready there, the outcome of that reconciliation decides
  the run: \<open>created\<close> and \<open>exists\<close> end it normally with the file system the
  reconciliation left and the message that names the link, \<open>failed\<close> ends the process.
  And a run that ends normally has got the working copy ready there and has reconciled
  that link with an outcome other than \<open>failed\<close>.
\<close>

theorem cmdAdd_paths:
  assumes "parseGitUrl url = Inr p"
  shows "(working_copy_ready git url (clone_destination cloneBase p) fs fs1 evs \<and>
          ensureLink win32 fs1 (link_location vault linkOverride p)
            (clone_destination cloneBase p) = Inr (st, fs2) \<longrightarrow>
            cmdAdd git win32 vault (cloneBase # others) url linkOverride fs =
              (if st = Failed
               then Inl (Exit LinkFailed,
                         (fs2, [Log_blank,
                                Log_add_info url (projectPath p) (clone_destination cloneBase p)
                                  (link_name linkOverride p),
                                Log_blank] @ evs @
                               [Error_link_failed (link_location vault linkOverride p)
                                  (clone_destination cloneBase p)]))
               else Inr (fs2, [Log_blank,
                               Log_add_info url (projectPath p) (clone_destination cloneBase p)
                                 (link_name linkOverride p),
                               Log_blank] @ evs @
                              [if st = Created then Log_link_created else Log_link_exists,
                               Log_blank, Log_done (link_location vault linkOverride p)]))) \<and>
         (cmdAdd git win32 vault (cloneBase # others) url linkOverride fs = Inr (fs', out) \<longrightarrow>
            (\<exists>fs1 evs st.
                working_copy_ready git url (clone_destination cloneBase p) fs fs1 evs \<and>
                ensureLink win32 fs1 (link_location vault linkOverride p)
                  (clone_destination cloneBase p) = Inr (st, fs') \<and> st \<noteq> Failed))"
proof -
  have o: "or_else linkOverride (projectPath p) = link_name linkOverride p"
    by (simp add: or_else_def link_name_def split: option.splits)
  have fwd: "cmdAdd git win32 vault (cloneBase # others) url linkOverride fs =
              (if st = Failed
               then Inl (Exit LinkFailed,
                         (fs2, [Log_blank,
                                Log_add_info url (projectPath p) (clone_destination cloneBase p)
                                  (link_name linkOverride p),
                                Log_blank] @ evs @
                               [Error_link_failed (link_location vault linkOverride p)
                                  (clone_destination cloneBase p)]))
               else Inr (fs2, [Log_blank,
                               Log_add_info url (projectPath p) (clone_destination cloneBase p)
                                 (link_name linkOverride p),
                               Log_blank] @ evs @
                              [if st = Created then Log_link_created else Log_link_exists,
                               Log_blank, Log_done (link_location vault linkOverride p)]))"
    if r: "working_copy_ready git url (clone_destination cloneBase p) fs fs1 evs"
      and e: "ensureLink win32 fs1 (link_location vault linkOverride p)
            (clone_destination cloneBase p) = Inr (st, fs2)"
  proof -
    from r consider
      (pull) "existsSync fs (clone_destination cloneBase p)"
        "fs1 = snd (git (GitPull (clone_destination cloneBase p)) fs)"
        "evs = [Log_repo_exists, Git (GitPull (clone_destination cloneBase p))]"
    | (clone) fs0 where "\<not> existsSync fs (clone_destination cloneBase p)"
        "mkdirSync_recursive fs (dirname (clone_destination cloneBase p)) = Inr fs0"
        "git (GitClone url (clone_destination cloneBase p)) fs0 = (True, fs1)"
        "evs = [Log_cloning, Git (GitClone url (clone_destination cloneBase p))]"
      unfolding working_copy_ready_def by blast
    then show ?thesis
    proof cases
      case pull
      with e show ?thesis
        unfolding cmdAdd_def assms
        by (cases st)
           (auto simp: o clone_destination_def link_location_def Let_def split: prod.splits)
    next
      case clone
      with e show ?thesis
        unfolding cmdAdd_def assms
        by (cases st)
           (auto simp: o clone_destination_def link_location_def Let_def split: prod.splits)
    qed
  qed
  have bwd: "\<exists>fs1 evs st.
                working_copy_ready git url (clone_destination cloneBase p) fs fs1 evs \<and>
                ensureLink win32 fs1 (link_location vault linkOverride p)
                  (clone_destination cloneBase p) = Inr (st, fs') \<and> st \<noteq> Failed"
    if "cmdAdd git win32 vault (cloneBase # others) url linkOverride fs = Inr (fs', out)"
    using that
    unfolding cmdAdd_def assms working_copy_ready_def clone_destination_def link_location_def
    by (auto simp: o Let_def split: sum.splits prod.splits if_splits outcome.splits)
  from fwd bwd show ?thesis by blast
qed

theorem cmdAdd_paths_witness:
  "cmdAdd git_stub False [''vault''] [[''src'']] ''git@github.com:org/group/project.git''
       (Some ''notes/p'') scenario_vault =
     Inr (([''vault'', ''notes'', ''p''], Symlink [''src'', ''group'', ''project'']) #
          ([''vault'', ''notes''], Dir True True True) #
          ([''src'', ''group'', ''project'', ''.git''], Dir True True True) #
          ([''src'', ''group'', ''project''], Dir True True True) #
          ([''src'', ''group''], Dir True True True) # scenario_vault,
          [Log_blank,
           Log_add_info ''git@github.com:org/group/project.git'' ''group/project''
             [''src'', ''group'', ''project''] ''notes/p'',
           Log_blank, Log_cloning,
           Git (GitClone ''git@github.com:org/group/project.git''
                  [''src'', ''group'', ''project'']),
           Log_link_created, Log_blank, Log_done [''vault'', ''notes'', ''p'']]) \<and>
   cmdAdd git_stub False [''vault''] [[''src'']] ''git@github.com:org/group/project.git''
       None scenario_vault =
     Inr (([''vault'', ''group'', ''project''], Symlink [''src'', ''group'', ''project'']) #
          ([''vault'', ''group''], Dir True True True) #
          ([''src'', ''group'', ''project'', ''.git''], Dir True True True) #
          ([''src'', ''group'', ''project''], Dir True True True) #
          ([''src'', ''group''], Dir True True True) # scenario_vault,
          [Log_blank,
           Log_add_info ''git@github.com:org/group/project.git'' ''group/project''
             [''src'', ''group'', ''project''] ''group/project'',
           Log_blank, Log_cloning,
           Git (GitClone ''git@github.com:org/group/project.git''
                  [''src'', ''group'', ''project'']),
           Log_link_created, Log_blank, Log_done [''vault'', ''group'', ''project'']]) \<and>
   cmdAdd git_stub False [''vault''] [[''src'']] ''git@github.com:org/group/project.git''
       (Some ''notes/p/'') scenario_vault =
     Inl (Exit LinkFailed,
          ([''vault'', ''notes''], Dir True True True) #
          ([''src'', ''group'', ''project'', ''.git''], Dir True True True) #
          ([''src'', ''group'', ''project''], Dir True True True) #
          ([''src'', ''group''], Dir True True True) # scenario_vault,
          [Log_blank,
           Log_add_info ''git@github.com:org/group/project.git'' ''group/project''
             [''src'', ''group'', ''project''] ''notes/p/'',
           Log_blank, Log_cloning,
           Git (GitClone ''git@github.com:org/group/project.git''
                  [''src'', ''group'', ''project'']),
           Error_link_failed [''vault'', ''notes'', ''p'', []] [''src'', ''group'', ''project'']])"
proof -
  let ?url = "''git@github.com:org/group/project.git''"
  let ?p = "\<lparr> org = ''org'', projectPath = ''group/project'' \<rparr>"
  let ?fs1 = "([''src'', ''group'', ''project'', ''.git''], Dir True True True) #
              ([''src'', ''group'', ''project''], Dir True True True) #
              ([''src'', ''group''], Dir True True True) # scenario_vault"
  have p: "parseGitUrl ?url = Inr ?p"
    by (simp add: parseGitUrl_def sshMatch_def after_prefix_def lazy_path_def line_terminator_def)
  have c: "clone_destination [''src''] ?p = [''src'', ''group'', ''project'']"
    by (simp add: clone_destination_def path_join_def)
  have l1: "link_location [''vault''] (Some ''notes/p'') ?p = [''vault'', ''notes'', ''p'']"
    by (simp add: link_location_def link_name_def path_join_def)
  have l2: "link_location [''vault''] None ?p = [''vault'', ''group'', ''project'']"
    by (simp add: link_location_def link_name_def path_join_def)
  have r: "working_copy_ready git_stub ?url [''src'', ''group'', ''project''] scenario_vault ?fs1
             [Log_cloning, Git (GitClone ?url [''src'', ''group'', ''project''])]"
    by (simp add: working_copy_ready_def link_eval git_stub_def scenario_vault_def)
  have e1: "ensureLink False ?fs1 [''vault'', ''notes'', ''p''] [''src'', ''group'', ''project''] =
      Inr (Created, ([''vault'', ''notes'', ''p''], Symlink [''src'', ''group'', ''project'']) #
                    ([''vault'', ''notes''], Dir True True True) # ?fs1)"
    by (simp add: link_eval scenario_vault_def)
  have e2: "ensureLink False ?fs1 [''vault'', ''group'', ''project''] [''src'', ''group'', ''project''] =
      Inr (Created, ([''vault'', ''group'', ''project''], Symlink [''src'', ''group'', ''project'']) #
                    ([''vault'', ''group''], Dir True True True) # ?fs1)"
    by (simp add: link_eval scenario_vault_def)
  from cmdAdd_paths[OF p, of git_stub "[''src'']" scenario_vault ?fs1
      "[Log_cloning, Git (GitClone ?url [''src'', ''group'', ''project''])]"
      False "[''vault'']" "Some ''notes/p''" Created
      "([''vault'', ''notes'', ''p''], Symlink [''src'', ''group'', ''project'']) #
       ([''vault'', ''notes''], Dir True True True) # ?fs1" "[]"] r e1
  have a: "cmdAdd git_stub False [''vault''] [[''src'']] ?url (Some ''notes/p'') scenario_vault =
     Inr (([''vault'', ''notes'', ''p''], Symlink [''src'', ''group'', ''project'']) #
          ([''vault'', ''notes''], Dir True True True) # ?fs1,
          [Log_blank,
           Log_add_info ?url ''group/project'' [''src'', ''group'', ''project''] ''notes/p'',
           Log_blank, Log_cloning, Git (GitClone ?url [''src'', ''group'', ''project'']),
           Log_link_created, Log_blank, Log_done [''vault'', ''notes'', ''p'']])"
    by (simp add: c l1 link_name_def)
  from cmdAdd_paths[OF p, of git_stub "[''src'']" scenario_vault ?fs1
      "[Log_cloning, Git (GitClone ?url [''src'', ''group'', ''project''])]"
      False "[''vault'']" None Created
      "([''vault'', ''group'', ''project''], Symlink [''src'', ''group'', ''project'']) #
       ([''vault'', ''group''], Dir True True True) # ?fs1" "[]"] r e2
  have b: "cmdAdd git_stub False [''vault''] [[''src'']] ?url None scenario_vault =
     Inr (([''vault'', ''group'', ''project''], Symlink [''src'', ''group'', ''project'']) #
          ([''vault'', ''group''], Dir True True True) # ?fs1,
          [Log_blank,
           Log_add_info ?url ''group/project'' [''src'', ''group'', ''project''] ''group/project'',
           Log_blank, Log_cloning, Git (GitClone ?url [''src'', ''group'', ''project'']),
           Log_link_created, Log_blank, Log_done [''vault'', ''group'', ''project'']])"
    by (simp add: c l2 link_name_def)
  have l3: "link_location [''vault''] (Some ''notes/p/'') ?p = [''vault'', ''notes'', ''p'', []]"
    by (simp add: link_location_def link_name_def path_join_def)
  have e3: "ensureLink False ?fs1 [''vault'', ''notes'', ''p'', []] [''src'', ''group'', ''project''] =
      Inr (Failed, ([''vault'', ''notes''], Dir True True True) # ?fs1)"
    by (simp add: link_eval scenario_vault_def)
  from cmdAdd_paths[OF p, of git_stub "[''src'']" scenario_vault ?fs1
      "[Log_cloning, Git (GitClone ?url [''src'', ''group'', ''project''])]"
      False "[''vault'']" "Some ''notes/p/''" Failed
      "([''vault'', ''notes''], Dir True True True) # ?fs1" "[]"] r e3
  have d: "cmdAdd git_stub False [''vault''] [[''src'']] ?url (Some ''notes/p/'') scenario_vault =
     Inl (Exit LinkFailed,
          ([''vault'', ''notes''], Dir True True True) # ?fs1,
          [Log_blank,
           Log_add_info ?url ''group/project'' [''src'', ''group'', ''project''] ''notes/p/'',
           Log_blank, Log_cloning, Git (GitClone ?url [''src'', ''group'', ''project'']),
           Error_link_failed [''vault'', ''notes'', ''p'', []] [''src'', ''group'', ''project'']])"
    by (simp add: c l3 link_name_def)
  from a b d show ?thesis by simp
qed

end
